theory Spec2Isabelle
  imports Complex_Main "HOL-Library.Multiset"
begin

section \<open>Python built-ins used by the program\<close>

text \<open>
  \<^verbatim>\<open>str(n)\<close> on an integer: the decimal numeral, with a leading minus sign for a
  negative number.
\<close>

fun digits_of :: "nat \<Rightarrow> string" where
  "digits_of n =
     (if n < 10 then [''0123456789'' ! n]
      else digits_of (n div 10) @ [''0123456789'' ! (n mod 10)])"

declare digits_of.simps [simp del]

definition str :: "int \<Rightarrow> string" where
  "str i = (if i < 0 then CHR ''-'' # digits_of (nat (- i)) else digits_of (nat i))"

text \<open>The exceptions the program can raise: popping an empty list or indexing past its
  end, and reading input at end of file.\<close>

datatype error = IndexError | EOFError

section \<open>Card\<close>

text \<open>
  The fields \<^verbatim>\<open>value\<close> and \<^verbatim>\<open>type\<close> of the class \<^verbatim>\<open>Card\<close>.
\<close>

record card =
  card_value :: int
  card_type :: string

definition Card :: "int \<Rightarrow> card" where
  "Card c =
     (if c = 1 then \<lparr>card_value = 11, card_type = ''A''\<rparr>
      else if c \<le> 10 then \<lparr>card_value = c, card_type = str c\<rparr>
      else if c = 11 then \<lparr>card_value = 10, card_type = ''J''\<rparr>
      else if c = 12 then \<lparr>card_value = 10, card_type = ''Q''\<rparr>
      else \<lparr>card_value = 10, card_type = ''K''\<rparr>)"

section \<open>Shoe\<close>

record shoe =
  shoe_cards :: "card list"

text \<open>
  \<^verbatim>\<open>Shoe.__init__\<close>: the outer loop runs over \<^verbatim>\<open>range(num_decks * 4)\<close>, which is
  empty for a number of decks that is zero or negative; the inner loop appends the
  cards of ranks 1 to 13 in order.
\<close>

definition one_suit :: "card list" where
  "one_suit = map (\<lambda>i. Card (int i)) [1..<14]"

definition Shoe :: "int \<Rightarrow> shoe" where
  "Shoe num_decks = \<lparr>shoe_cards = concat (replicate (nat (num_decks * 4)) one_suit)\<rparr>"

text \<open>
  \<^verbatim>\<open>random.shuffle\<close> belongs to Python's standard library, whose implementation is
  \<^verbatim>\<open>for i in reversed(range(1, len(x))): j = randbelow(i + 1); x[i], x[j] = x[j], x[i]\<close>.
  The random source is the parameter \<open>r\<close>: \<open>r i\<close> is the number drawn at position
  \<open>i\<close>, reduced into the range \<open>0..i\<close>.
\<close>

fun shuffle_loop :: "(nat \<Rightarrow> nat) \<Rightarrow> nat \<Rightarrow> 'a list \<Rightarrow> 'a list" where
  "shuffle_loop r 0 xs = xs"
| "shuffle_loop r (Suc i) xs =
     (let j = r (Suc i) mod (Suc i + 1)
      in shuffle_loop r i (xs[Suc i := xs ! j, j := xs ! Suc i]))"

definition shuffle :: "(nat \<Rightarrow> nat) \<Rightarrow> shoe \<Rightarrow> shoe" where
  "shuffle r s = s\<lparr>shoe_cards := shuffle_loop r (length (shoe_cards s) - 1) (shoe_cards s)\<rparr>"

text \<open>\<^verbatim>\<open>get_card\<close> pops the last card; \<^verbatim>\<open>pop\<close> on an empty list raises IndexError.\<close>

definition get_card :: "shoe \<Rightarrow> error + (card \<times> shoe)" where
  "get_card s =
     (if shoe_cards s = [] then Inl IndexError
      else Inr (last (shoe_cards s), s\<lparr>shoe_cards := butlast (shoe_cards s)\<rparr>))"

text \<open>Drawing \<open>k\<close> cards in a row: the cards drawn, in order, and the shoe left.\<close>

fun draw :: "nat \<Rightarrow> shoe \<Rightarrow> error + (card list \<times> shoe)" where
  "draw 0 s = Inr ([], s)"
| "draw (Suc k) s =
     (case get_card s of
        Inl e \<Rightarrow> Inl e
      | Inr (c, s') \<Rightarrow>
          (case draw k s' of Inl e \<Rightarrow> Inl e | Inr (cs, s'') \<Rightarrow> Inr (c # cs, s'')))"

section \<open>Hand\<close>

record hand =
  cards :: "card list"
  num_aces :: int
  bet :: int
  split_ace :: bool

definition Hand :: "int \<Rightarrow> hand" where
  "Hand b = \<lparr>cards = [], num_aces = 0, bet = b, split_ace = False\<rparr>"

definition add :: "hand \<Rightarrow> card \<Rightarrow> hand" where
  "add h c =
     (let h' = h\<lparr>cards := cards h @ [c]\<rparr>
      in if card_type c = ''A'' then h'\<lparr>num_aces := num_aces h' + 1\<rparr> else h')"

text \<open>The loop of \<^verbatim>\<open>Hand.value\<close>, on its two variables \<^verbatim>\<open>real_value\<close> and \<^verbatim>\<open>temp\<close>.\<close>

function value_loop :: "int \<Rightarrow> int \<Rightarrow> int" where
  "value_loop real_value temp =
     (if temp > 0 \<and> real_value > 21 then value_loop (real_value - 10) (temp - 1)
      else real_value)"
  by pat_completeness auto
termination
  by (relation "measure (\<lambda>(real_value, temp). nat temp)") auto

declare value_loop.simps [simp del]

definition hand_value :: "hand \<Rightarrow> int" where
  "hand_value h = value_loop (sum_list (map card_value (cards h))) (num_aces h)"

definition is_bust :: "hand \<Rightarrow> bool" where
  "is_bust h \<longleftrightarrow> hand_value h > 21"

definition can_split :: "hand \<Rightarrow> bool" where
  "can_split h \<longleftrightarrow>
     length (cards h) = 2 \<and> card_type (cards h ! 0) = card_type (cards h ! 1)"

text \<open>A hand as the program builds it: created with a bet, then cards added one by one.\<close>

definition hand_of :: "int \<Rightarrow> card list \<Rightarrow> hand" where
  "hand_of b cs = foldl add (Hand b) cs"

text \<open>The sum of the base values of a list of cards and the number of aces in it.\<close>

definition total :: "card list \<Rightarrow> int" where
  "total cs = sum_list (map card_value cs)"

definition aces :: "card list \<Rightarrow> nat" where
  "aces cs = length (filter (\<lambda>c. card_type c = ''A'') cs)"

section \<open>Dealer\<close>

text \<open>
  The list \<^verbatim>\<open>hands\<close> of a dealer always holds exactly one hand: \<^verbatim>\<open>__init__\<close> and
  \<^verbatim>\<open>reset\<close> set it to \<^verbatim>\<open>[Hand()]\<close>, nothing changes its length, and every access
  is \<^verbatim>\<open>hands[0]\<close>. The record holds that hand.
\<close>

record dealer =
  dealer_hand :: hand
  dealer_name :: string

definition Dealer :: dealer where
  "Dealer = \<lparr>dealer_hand = Hand 0, dealer_name = ''Dealer''\<rparr>"

definition can_hit :: "dealer \<Rightarrow> bool" where
  "can_hit d \<longleftrightarrow> hand_value (dealer_hand d) < 17"

definition dealer_bust :: "dealer \<Rightarrow> bool" where
  "dealer_bust d = (if hand_value (dealer_hand d) > 21 then True else False)"

definition dealer_reset :: "dealer \<Rightarrow> dealer" where
  "dealer_reset d = d\<lparr>dealer_hand := Hand 0\<rparr>"

section \<open>Player\<close>

text \<open>
  \<^verbatim>\<open>money\<close> is a Python float that starts at 1000.0. Every amount the program adds
  to it or takes from it is an integer or 1.5 times an integer, which binary floating
  point adds and subtracts exactly as long as the balance stays below \<open>2\<^sup>5\<^sup>2\<close>; the
  model keeps the balance as an exact rational number.
\<close>

record player =
  hands :: "hand list"
  money :: rat
  blackjack :: bool
  name :: string

definition Player :: "int \<Rightarrow> player" where
  "Player player_num =
     \<lparr>hands = [], money = 1000, blackjack = False, name = ''player '' @ str player_num\<rparr>"

definition is_active :: "player \<Rightarrow> bool" where
  "is_active p = (if blackjack p then False else list_ex (\<lambda>hand. \<not> is_bust hand) (hands p))"

text \<open>
  The methods \<^verbatim>\<open>double\<close> and \<^verbatim>\<open>split\<close> receive a hand object that is an element of
  the player's list \<^verbatim>\<open>hands\<close> and change it in place. The model passes the position
  \<open>i\<close> of that hand in the list and writes the changed hand back there.
\<close>

definition double :: "player \<Rightarrow> nat \<Rightarrow> player" where
  "double p i =
     (let hand = hands p ! i
      in p\<lparr>money := money p - of_int (bet hand),
            hands := (hands p)[i := hand\<lparr>bet := bet hand * 2\<rparr>]\<rparr>)"

text \<open>
  \<^verbatim>\<open>split\<close>: the money is taken first; \<^verbatim>\<open>hand.cards.pop()\<close> raises IndexError on a
  hand without cards. The new hand is appended, so it is the last hand of the result.
\<close>

definition split :: "player \<Rightarrow> nat \<Rightarrow> error + player" where
  "split p i =
     (let hand = hands p ! i;
          p1 = p\<lparr>money := money p - of_int (bet hand)\<rparr>
      in if cards hand = [] then Inl IndexError
         else
           let newHand = (add (Hand (bet hand)) (last (cards hand)))\<lparr>split_ace := True\<rparr>;
               hand' = hand\<lparr>cards := butlast (cards hand), split_ace := True\<rparr>
           in Inr (p1\<lparr>hands := (hands p)[i := hand'] @ [newHand]\<rparr>))"

definition player_reset :: "player \<Rightarrow> player" where
  "player_reset p = p\<lparr>hands := [], blackjack := False\<rparr>"

definition add_hand :: "player \<Rightarrow> hand \<Rightarrow> player" where
  "add_hand p hand = p\<lparr>money := money p - of_int (bet hand), hands := hands p @ [hand]\<rparr>"

definition win_hand :: "player \<Rightarrow> hand \<Rightarrow> player" where
  "win_hand p hand =
     (let p1 = p\<lparr>money := money p + of_int (bet hand)\<rparr>
      in if blackjack p1 then p1\<lparr>money := money p1 + of_int (bet hand) * (3 / 2)\<rparr>
         else p1\<lparr>money := money p1 + of_int (bet hand)\<rparr>)"

definition push_hand :: "player \<Rightarrow> hand \<Rightarrow> player" where
  "push_hand p hand = p\<lparr>money := money p + of_int (bet hand)\<rparr>"

definition player_bust :: "hand \<Rightarrow> bool" where
  "player_bust hand = (if is_bust hand then True else False)"

section \<open>Game\<close>

record game =
  shoe :: shoe
  players :: "player list"
  dealer :: dealer

definition Game :: "int \<Rightarrow> game" where
  "Game num_players =
     \<lparr>shoe = Shoe (max num_players 6),
      players = map (\<lambda>i. Player (int i + 1)) [0..<nat num_players],
      dealer = Dealer\<rparr>"

text \<open>
  \<^verbatim>\<open>hit\<close> draws a card and adds it to the hand it is given; the caller stores the
  hand returned where the hand came from. \<open>hit_hand\<close> is a hit on hand \<open>i\<close> of a
  player.
\<close>

definition hit :: "shoe \<Rightarrow> hand \<Rightarrow> error + (shoe \<times> hand)" where
  "hit s hand =
     (case get_card s of Inl e \<Rightarrow> Inl e | Inr (c, s') \<Rightarrow> Inr (s', add hand c))"

definition hit_hand :: "shoe \<Rightarrow> player \<Rightarrow> nat \<Rightarrow> error + (shoe \<times> player)" where
  "hit_hand s p i =
     (case hit s (hands p ! i) of
        Inl e \<Rightarrow> Inl e
      | Inr (s', hand') \<Rightarrow> Inr (s', p\<lparr>hands := (hands p)[i := hand']\<rparr>))"

definition has_active_players :: "game \<Rightarrow> bool" where
  "has_active_players g = list_ex is_active (players g)"

text \<open>
  \<^verbatim>\<open>reset\<close>: the new shoe has as many decks as there are players, and is shuffled
  with the random source \<open>r\<close>. Clearing the screen changes no state.
\<close>

definition reset :: "(nat \<Rightarrow> nat) \<Rightarrow> game \<Rightarrow> game" where
  "reset r g =
     g\<lparr>dealer := dealer_reset (dealer g),
       players := map player_reset (players g),
       shoe := shuffle r (Shoe (int (length (players g))))\<rparr>"

subsection \<open>Taking bets\<close>

text \<open>
  The inputs typed at the prompts are a list of strings. Python's \<^verbatim>\<open>int(bet)\<close> is
  the parameter \<open>int_of\<close>: \<open>None\<close> where \<^verbatim>\<open>int\<close> raises ValueError. The loop for
  one player returns \<open>Some (False, _)\<close> on the input \<^verbatim>\<open>q\<close>, \<open>Some (True, _)\<close> with the
  player's new hand once a bet is accepted, and never returns when the inputs run out:
  \<^verbatim>\<open>input\<close> then raises EOFError at every prompt and the bare \<^verbatim>\<open>except\<close> catches it,
  so the result is \<open>None\<close>.
\<close>

fun take_bet ::
  "(string \<Rightarrow> int option) \<Rightarrow> player \<Rightarrow> string list \<Rightarrow> (bool \<times> player \<times> string list) option"
where
  "take_bet int_of p [] = None"
| "take_bet int_of p (b # rest) =
     (if b = ''q'' then Some (False, p, rest)
      else
        (case int_of b of
           None \<Rightarrow> take_bet int_of p rest
         | Some n \<Rightarrow>
             if n < 0 \<or> of_int n > money p then take_bet int_of p rest
             else Some (True, add_hand p (Hand n), rest)))"

fun take_bets_loop ::
  "(string \<Rightarrow> int option) \<Rightarrow> player list \<Rightarrow> string list \<Rightarrow>
     (bool \<times> player list \<times> string list) option"
where
  "take_bets_loop int_of [] ins = Some (True, [], ins)"
| "take_bets_loop int_of (p # ps) ins =
     (case take_bet int_of p ins of
        None \<Rightarrow> None
      | Some (ok, p', rest) \<Rightarrow>
          if \<not> ok then Some (False, p' # ps, rest)
          else
            (case take_bets_loop int_of ps rest of
               None \<Rightarrow> None
             | Some (ok', ps', rest') \<Rightarrow> Some (ok', p' # ps', rest')))"

definition take_bets ::
  "(string \<Rightarrow> int option) \<Rightarrow> game \<Rightarrow> string list \<Rightarrow> (bool \<times> game \<times> string list) option"
where
  "take_bets int_of g ins =
     (case take_bets_loop int_of (players g) ins of
        None \<Rightarrow> None
      | Some (ok, ps, rest) \<Rightarrow> Some (ok, g\<lparr>players := ps\<rparr>, rest))"

text \<open>A reader of plain decimal numerals with an optional sign, a fragment of what
  \<^verbatim>\<open>int\<close> accepts, for running the model on concrete inputs.\<close>

fun dec_nat :: "nat \<Rightarrow> string \<Rightarrow> nat option" where
  "dec_nat acc [] = Some acc"
| "dec_nat acc (c # cs) =
     (if c \<in> set ''0123456789''
      then dec_nat (10 * acc + (of_char c - 48)) cs else None)"

fun dec_int :: "string \<Rightarrow> int option" where
  "dec_int [] = None"
| "dec_int (c # cs) =
     (if c = CHR ''-'' then (if cs = [] then None else map_option (\<lambda>n. - int n) (dec_nat 0 cs))
      else map_option int (dec_nat 0 (c # cs)))"

subsection \<open>Dealing and the blackjack check\<close>

text \<open>
  \<^verbatim>\<open>check_blackjack\<close>, the body of its loop for one player: the player after it, and
  whether the player got a blackjack. An active player has a hand, so \<^verbatim>\<open>hands[0]\<close>
  exists.
\<close>

definition check_blackjack_player :: "bool \<Rightarrow> player \<Rightarrow> player \<times> bool" where
  "check_blackjack_player dealer_blackjack p =
     (if \<not> is_active p then (p, False)
      else
        let hand = hands p ! 0
        in if hand_value hand = 21
           then
             (let p1 = p\<lparr>blackjack := True\<rparr>
              in (if dealer_blackjack then push_hand p1 hand else win_hand p1 hand, True))
           else (p, False))"

definition check_blackjack :: "game \<Rightarrow> bool \<times> game" where
  "check_blackjack g =
     (let dealer_blackjack = (hand_value (dealer_hand (dealer g)) = 21);
          results = map (check_blackjack_player dealer_blackjack) (players g);
          blackjack = list_ex snd results;
          g' = g\<lparr>players := map fst results\<rparr>
      in if blackjack \<and> dealer_blackjack then (False, g')
         else if \<not> has_active_players g' then (False, g')
         else (True, g'))"

text \<open>
  \<^verbatim>\<open>deal\<close>: two cards to the dealer, then two cards to \<^verbatim>\<open>hands[0]\<close> of each player
  in turn (IndexError for a player without a hand), then the blackjack check.
\<close>

definition hit_twice :: "shoe \<Rightarrow> hand \<Rightarrow> error + (shoe \<times> hand)" where
  "hit_twice s hand =
     (case hit s hand of Inl e \<Rightarrow> Inl e | Inr (s1, hand1) \<Rightarrow> hit s1 hand1)"

fun deal_players :: "shoe \<Rightarrow> player list \<Rightarrow> error + (shoe \<times> player list)" where
  "deal_players s [] = Inr (s, [])"
| "deal_players s (p # ps) =
     (case hands p of
        [] \<Rightarrow> Inl IndexError
      | hand # hs \<Rightarrow>
          (case hit_twice s hand of
             Inl e \<Rightarrow> Inl e
           | Inr (s', hand') \<Rightarrow>
               (case deal_players s' ps of
                  Inl e \<Rightarrow> Inl e
                | Inr (s'', ps') \<Rightarrow> Inr (s'', p\<lparr>hands := hand' # hs\<rparr> # ps'))))"

definition deal :: "game \<Rightarrow> error + (bool \<times> game)" where
  "deal g =
     (case hit_twice (shoe g) (dealer_hand (dealer g)) of
        Inl e \<Rightarrow> Inl e
      | Inr (s, hand) \<Rightarrow>
          (case deal_players s (players g) of
             Inl e \<Rightarrow> Inl e
           | Inr (s', ps) \<Rightarrow>
               Inr (check_blackjack
                      (g\<lparr>shoe := s', players := ps,
                         dealer := (dealer g)\<lparr>dealer_hand := hand\<rparr>\<rparr>))))"

subsection \<open>The dealer's turn\<close>

function do_dealer_turn_loop :: "shoe \<Rightarrow> dealer \<Rightarrow> error + (shoe \<times> dealer)" where
  "do_dealer_turn_loop s d =
     (if can_hit d
      then
        (case hit s (dealer_hand d) of
           Inl e \<Rightarrow> Inl e
         | Inr (s', hand') \<Rightarrow> do_dealer_turn_loop s' (d\<lparr>dealer_hand := hand'\<rparr>))
      else Inr (s, d))"
  by pat_completeness auto
termination
  by (relation "measure (\<lambda>(s, d). length (shoe_cards s))")
     (auto simp: hit_def get_card_def split: if_splits)

declare do_dealer_turn_loop.simps [simp del]

definition do_dealer_turn :: "game \<Rightarrow> error + game" where
  "do_dealer_turn g =
     (case do_dealer_turn_loop (shoe g) (dealer g) of
        Inl e \<Rightarrow> Inl e
      | Inr (s, d) \<Rightarrow> Inr (g\<lparr>shoe := s, dealer := d\<rparr>))"

subsection \<open>Settlement\<close>

text \<open>
  \<^verbatim>\<open>do_results\<close> reports the outcome of each hand only by the line it prints, so the
  model returns these lines with the new state. \<open>settle_hand\<close> is the body of the
  inner loop for hand number \<open>i\<close> (counted from 0) of a player.
\<close>

definition result_line :: "player \<Rightarrow> nat \<Rightarrow> string \<Rightarrow> string" where
  "result_line p i word = name p @ CHR 0x27 # ''s hand '' @ str (int i + 1) @ '' is a '' @ word"

definition settle_hand :: "bool \<Rightarrow> int \<Rightarrow> player \<Rightarrow> nat \<Rightarrow> hand \<Rightarrow> player \<times> string list" where
  "settle_hand dealer_busted dealer_total p i hand =
     (if is_bust hand then (p, [])
      else
        let player_total = hand_value hand
        in if dealer_busted \<or> player_total > dealer_total
           then (win_hand p hand, [result_line p i ''win''])
           else if player_total = dealer_total
           then (push_hand p hand, [result_line p i ''push''])
           else (p, [result_line p i ''loss'']))"

fun settle_hands ::
  "bool \<Rightarrow> int \<Rightarrow> player \<Rightarrow> nat \<Rightarrow> hand list \<Rightarrow> player \<times> string list"
where
  "settle_hands db dt p i [] = (p, [])"
| "settle_hands db dt p i (hand # hs) =
     (let (p1, out1) = settle_hand db dt p i hand;
          (p2, out2) = settle_hands db dt p1 (Suc i) hs
      in (p2, out1 @ out2))"

definition do_results_player :: "dealer \<Rightarrow> player \<Rightarrow> player \<times> string list" where
  "do_results_player d p =
     (if \<not> is_active p then (p, [])
      else settle_hands (dealer_bust d) (hand_value (dealer_hand d)) p 0 (hands p))"

definition do_results :: "game \<Rightarrow> game \<times> string list" where
  "do_results g =
     (let results = map (do_results_player (dealer g)) (players g)
      in (g\<lparr>players := map fst results\<rparr>, concat (map snd results)))"

subsection \<open>The players' turns\<close>

text \<open>
  \<^verbatim>\<open>do_player_turn\<close> for one player, from hand \<open>i\<close> on. The \<^verbatim>\<open>for\<close> loop runs over
  the list \<^verbatim>\<open>player.hands\<close> while \<^verbatim>\<open>split\<close> appends to it, so it ends when \<open>i\<close>
  reaches the current length. A \<^verbatim>\<open>break\<close> of the inner loop moves to hand \<open>i + 1\<close>,
  a \<^verbatim>\<open>continue\<close> or the end of its body asks again for hand \<open>i\<close>. \<^verbatim>\<open>input\<close> raises
  EOFError when the inputs have run out. The result is \<^verbatim>\<open>False\<close> when the user quits.
\<close>

function do_player_turn_from ::
  "shoe \<Rightarrow> player \<Rightarrow> nat \<Rightarrow> string list \<Rightarrow> error + (bool \<times> shoe \<times> player \<times> string list)"
where
  "do_player_turn_from s p i ins =
     (if length (hands p) \<le> i then Inr (True, s, p, ins)
      else if split_ace (hands p ! i) then do_player_turn_from s p (Suc i) ins
      else
        (case ins of
           [] \<Rightarrow> Inl EOFError
         | user_input # ins1 \<Rightarrow>
             if user_input = ''q'' then
               (case ins1 of
                  [] \<Rightarrow> Inl EOFError
                | quit # ins2 \<Rightarrow>
                    if quit = ''y'' then Inr (False, s, p, ins2)
                    else do_player_turn_from s p i ins2)
             else if user_input = ''h'' then
               (case hit_hand s p i of
                  Inl e \<Rightarrow> Inl e
                | Inr (s1, p1) \<Rightarrow>
                    if player_bust (hands p1 ! i) then do_player_turn_from s1 p1 (Suc i) ins1
                    else do_player_turn_from s1 p1 i ins1)
             else if user_input = ''s'' then do_player_turn_from s p (Suc i) ins1
             else if user_input = ''sp'' then
               (if can_split (hands p ! i) \<and> length (hands p) < 4
                   \<and> money p \<ge> of_int (bet (hands p ! i))
                then
                  (case split p i of
                     Inl e \<Rightarrow> Inl e
                   | Inr p1 \<Rightarrow>
                       (case hit_hand s p1 i of
                          Inl e \<Rightarrow> Inl e
                        | Inr (s2, p2) \<Rightarrow>
                            (case hit_hand s2 p2 (length (hands p)) of
                               Inl e \<Rightarrow> Inl e
                             | Inr (s3, p3) \<Rightarrow> do_player_turn_from s3 p3 i ins1)))
                else do_player_turn_from s p i ins1)
             else if user_input = ''d'' then
               (if money p \<ge> of_int (bet (hands p ! i))
                then
                  (case hit_hand s (double p i) i of
                     Inl e \<Rightarrow> Inl e
                   | Inr (s1, p1) \<Rightarrow> do_player_turn_from s1 p1 (Suc i) ins1)
                else do_player_turn_from s p i ins1)
             else do_player_turn_from s p i ins1))"
  by pat_completeness auto
termination
  by (relation "measures [\<lambda>(s, p, i, ins). length ins,
                          \<lambda>(s, p, i, ins). length (hands p) - i]") auto

declare do_player_turn_from.simps [simp del]

definition do_player_turn ::
  "shoe \<Rightarrow> player \<Rightarrow> string list \<Rightarrow> error + (bool \<times> shoe \<times> player \<times> string list)"
where
  "do_player_turn s p ins = do_player_turn_from s p 0 ins"

fun do_player_turns_loop ::
  "shoe \<Rightarrow> player list \<Rightarrow> string list \<Rightarrow>
     error + (bool \<times> shoe \<times> player list \<times> string list)"
where
  "do_player_turns_loop s [] ins = Inr (True, s, [], ins)"
| "do_player_turns_loop s (p # ps) ins =
     (if is_active p
      then
        (case do_player_turn s p ins of
           Inl e \<Rightarrow> Inl e
         | Inr (ok, s1, p1, ins1) \<Rightarrow>
             if \<not> ok then Inr (False, s1, p1 # ps, ins1)
             else
               (case do_player_turns_loop s1 ps ins1 of
                  Inl e \<Rightarrow> Inl e
                | Inr (ok', s2, ps2, ins2) \<Rightarrow> Inr (ok', s2, p1 # ps2, ins2)))
      else
        (case do_player_turns_loop s ps ins of
           Inl e \<Rightarrow> Inl e
         | Inr (ok', s2, ps2, ins2) \<Rightarrow> Inr (ok', s2, p # ps2, ins2)))"

definition do_player_turns ::
  "game \<Rightarrow> string list \<Rightarrow> error + (bool \<times> game \<times> string list)"
where
  "do_player_turns g ins =
     (case do_player_turns_loop (shoe g) (players g) ins of
        Inl e \<Rightarrow> Inl e
      | Inr (ok, s, ps, rest) \<Rightarrow> Inr (ok, g\<lparr>shoe := s, players := ps\<rparr>, rest))"

text \<open>
  What settlement credits for one hand of an active player, in the words of the rules:
  nothing for a bust hand; the stake and equal winnings when the dealer is bust or the
  hand beats the dealer's total; the stake when the totals are equal; nothing otherwise.
\<close>

definition credit :: "bool \<Rightarrow> int \<Rightarrow> hand \<Rightarrow> rat" where
  "credit dealer_busted dealer_total hand =
     (if is_bust hand then 0
      else if dealer_busted \<or> hand_value hand > dealer_total then 2 * of_int (bet hand)
      else if hand_value hand = dealer_total then of_int (bet hand)
      else 0)"

section \<open>The states the engine can reach\<close>

text \<open>
  A player is in order when the money is not negative and no hand has a negative bet.
  The reachable games are those obtained from a newly constructed game by the methods
  of \<^verbatim>\<open>Game\<close> that \<^verbatim>\<open>main\<close> calls, in any order, on any inputs and any random
  numbers, whenever the method returns.
\<close>

definition player_ok :: "player \<Rightarrow> bool" where
  "player_ok p \<longleftrightarrow> 0 \<le> money p \<and> list_all (\<lambda>hand. 0 \<le> bet hand) (hands p)"

inductive reachable :: "game \<Rightarrow> bool" where
  init: "reachable (Game n)"
| after_reset: "reachable g \<Longrightarrow> reachable (reset r g)"
| after_take_bets:
    "reachable g \<Longrightarrow> take_bets int_of g ins = Some (ok, g', rest) \<Longrightarrow> reachable g'"
| after_deal: "reachable g \<Longrightarrow> deal g = Inr (ok, g') \<Longrightarrow> reachable g'"
| after_check_blackjack: "reachable g \<Longrightarrow> check_blackjack g = (ok, g') \<Longrightarrow> reachable g'"
| after_do_player_turns:
    "reachable g \<Longrightarrow> do_player_turns g ins = Inr (ok, g', rest) \<Longrightarrow> reachable g'"
| after_do_dealer_turn: "reachable g \<Longrightarrow> do_dealer_turn g = Inr g' \<Longrightarrow> reachable g'"
| after_do_results: "reachable g \<Longrightarrow> do_results g = (g', out) \<Longrightarrow> reachable g'"

definition game_ok :: "game \<Rightarrow> bool" where
  "game_ok g \<longleftrightarrow> list_all player_ok (players g)"

text \<open>
  A sample round: one player, the shoe shuffled with the random numbers \<open>i div 2\<close>, a
  bet of 400, the deal, and the player doubling. Each step keeps the state before it
  where the method does not return.
\<close>

definition sample_bets :: game where
  "sample_bets =
     (case take_bets dec_int (reset (\<lambda>i. i div 2) (Game 1)) [''400''] of
        None \<Rightarrow> Game 1 | Some (ok, g, rest) \<Rightarrow> g)"

definition sample_dealt :: game where
  "sample_dealt = (case deal sample_bets of Inl e \<Rightarrow> sample_bets | Inr (ok, g) \<Rightarrow> g)"

definition sample_doubled :: game where
  "sample_doubled =
     (case do_player_turns sample_dealt [''d''] of
        Inl e \<Rightarrow> sample_dealt | Inr (ok, g, rest) \<Rightarrow> g)"

section \<open>Properties of hands\<close>

lemma foldl_add_cards: "cards (foldl add h cs) = cards h @ cs"
  by (induction cs arbitrary: h) (simp_all add: add_def Let_def)

lemma foldl_add_num_aces: "num_aces (foldl add h cs) = num_aces h + int (aces cs)"
  by (induction cs arbitrary: h) (simp_all add: add_def Let_def aces_def)

lemma foldl_add_bet: "bet (foldl add h cs) = bet h"
  by (induction cs arbitrary: h) (simp_all add: add_def Let_def)

lemma foldl_add_split_ace: "split_ace (foldl add h cs) = split_ace h"
  by (induction cs arbitrary: h) (simp_all add: add_def Let_def)

lemma hand_of_simps:
  "cards (hand_of b cs) = cs" "num_aces (hand_of b cs) = int (aces cs)"
  "bet (hand_of b cs) = b" "split_ace (hand_of b cs) = False"
  by (simp_all add: hand_of_def foldl_add_cards foldl_add_num_aces foldl_add_bet
      foldl_add_split_ace Hand_def)

lemma value_loop_softens:
  "0 \<le> temp \<Longrightarrow>
   \<exists>k. int k \<le> temp \<and> value_loop v temp = v - 10 * int k \<and>
       (value_loop v temp \<le> 21 \<or> int k = temp) \<and>
       (0 < k \<longrightarrow> 21 < value_loop v temp + 10)"
proof (induction v temp rule: value_loop.induct)
  case (1 v temp)
  show ?case
  proof (cases "temp > 0 \<and> v > 21")
    case True
    then have "0 \<le> temp - 1" by simp
    from "1.IH" [OF True this] obtain k where k: "int k \<le> temp - 1"
      "value_loop (v - 10) (temp - 1) = v - 10 - 10 * int k"
      "value_loop (v - 10) (temp - 1) \<le> 21 \<or> int k = temp - 1"
      "0 < k \<longrightarrow> 21 < value_loop (v - 10) (temp - 1) + 10"
      by blast
    have unfold: "value_loop v temp = value_loop (v - 10) (temp - 1)"
      using True by (simp add: value_loop.simps [of v temp])
    show ?thesis
    proof (intro exI [of _ "Suc k"] conjI)
      show "int (Suc k) \<le> temp" using k(1) by simp
      show "value_loop v temp = v - 10 * int (Suc k)" using k(2) unfold by simp
      show "value_loop v temp \<le> 21 \<or> int (Suc k) = temp" using k(3) unfold by auto
      show "0 < Suc k \<longrightarrow> 21 < value_loop v temp + 10"
        using k(2,4) unfold True by (cases "k = 0") auto
    qed
  next
    case False
    then have "value_loop v temp = v"
      by (subst value_loop.simps) auto
    with False "1.prems" show ?thesis
      by (intro exI [of _ 0]) auto
  qed
qed

lemma rank_cases:
  "r \<in> {1..13} \<Longrightarrow> r \<in> set [1, 2, 3, 4, 5, 6, 7, 8, 9, 10, 11, 12, 13 :: int]"
  by (simp only: atLeastAtMost_iff list.set insert_iff empty_iff) presburger

lemma one_suit_labels_distinct:
  "distinct (map card_type (map Card [1, 2, 3, 4, 5, 6, 7, 8, 9, 10, 11, 12, 13]))"
  by code_simp

lemma label_inj_list:
  "\<forall>r1 \<in> set [1, 2, 3, 4, 5, 6, 7, 8, 9, 10, 11, 12, 13 :: int].
   \<forall>r2 \<in> set [1, 2, 3, 4, 5, 6, 7, 8, 9, 10, 11, 12, 13 :: int].
     (card_type (Card r1) = card_type (Card r2)) = (r1 = r2)"
  by code_simp

lemma label_inj:
  "r1 \<in> {1..13} \<Longrightarrow> r2 \<in> {1..13} \<Longrightarrow> (card_type (Card r1) = card_type (Card r2)) = (r1 = r2)"
  using label_inj_list rank_cases by blast

lemma Card_inj: "r1 \<in> {1..13} \<Longrightarrow> r2 \<in> {1..13} \<Longrightarrow> (Card r1 = Card r2) = (r1 = r2)"
  using label_inj by metis

text \<open>
  Claim C7. A hand can be split exactly when it holds two cards with equal labels. For
  two cards of ranks 1 to 13 that is exactly when the ranks are equal, so a 10 and a
  King, which have the same value, cannot be split; their hand is worth 20.
\<close>

theorem can_split_labels:
  "(can_split h \<longleftrightarrow> (\<exists>c1 c2. cards h = [c1, c2] \<and> card_type c1 = card_type c2)) \<and>
   (\<forall>r1 \<in> {1..13}. \<forall>r2 \<in> {1..13}. can_split (hand_of b [Card r1, Card r2]) \<longleftrightarrow> r1 = r2) \<and>
   card_value (Card 10) = card_value (Card 13) \<and>
   \<not> can_split (hand_of b [Card 10, Card 13]) \<and>
   hand_value (hand_of b [Card 10, Card 13]) = 20"
proof -
  have "can_split h \<longleftrightarrow> (\<exists>c1 c2. cards h = [c1, c2] \<and> card_type c1 = card_type c2)"
  proof
    assume cs: "can_split h"
    then have len: "length (cards h) = 2" by (simp add: can_split_def)
    then obtain c1 c2 where "cards h = [c1, c2]"
      by (cases "cards h"; cases "tl (cards h)") auto
    with cs show "\<exists>c1 c2. cards h = [c1, c2] \<and> card_type c1 = card_type c2"
      by (simp add: can_split_def)
  next
    assume "\<exists>c1 c2. cards h = [c1, c2] \<and> card_type c1 = card_type c2"
    then show "can_split h" by (auto simp: can_split_def)
  qed
  moreover have "\<forall>r1 \<in> {1..13}. \<forall>r2 \<in> {1..13}.
      can_split (hand_of b [Card r1, Card r2]) \<longleftrightarrow> r1 = r2"
    by (simp add: can_split_def hand_of_simps label_inj)
  moreover have "card_value (Card 10) = card_value (Card 13)"
    by (simp add: Card_def)
  moreover have "\<not> can_split (hand_of b [Card 10, Card 13])"
    by (simp add: can_split_def hand_of_simps label_inj)
  moreover have "hand_value (hand_of b [Card 10, Card 13]) = 20"
    by (simp add: hand_value_def hand_of_simps aces_def Card_def str_def
        digits_of.simps [of 10] digits_of.simps [of 1] value_loop.simps [of 20])
  ultimately show ?thesis by blast
qed

theorem can_split_labels_witness:
  "(8::int) \<in> {1..13} \<and> can_split (hand_of 10 [Card 8, Card 8]) \<and>
   (11::int) \<in> {1..13} \<and> (12::int) \<in> {1..13} \<and> \<not> can_split (hand_of 10 [Card 11, Card 12])"
proof -
  have r: "(8::int) \<in> {1..13}" "(11::int) \<in> {1..13}" "(12::int) \<in> {1..13}" by simp_all
  from can_split_labels [of "hand_of 10 [Card 8, Card 8]" 10]
  have "\<forall>r1 \<in> {1..13}. \<forall>r2 \<in> {1..13}.
      can_split (hand_of 10 [Card r1, Card r2]) \<longleftrightarrow> r1 = r2"
    by blast
  with r have "can_split (hand_of 10 [Card 8, Card 8])"
    and "\<not> can_split (hand_of 10 [Card 11, Card 12])"
    by auto
  with r show ?thesis by blast
qed

section \<open>Properties of the payout\<close>

text \<open>
  Claim C2. \<^verbatim>\<open>win_hand\<close> credits the bet plus the winnings: the bet again for a player
  without the blackjack flag, one and a half times the bet for a player with it. Measured
  from the balance before the bet was placed by \<^verbatim>\<open>add_hand\<close>, the gain is the bet, or
  one and a half times the bet for a blackjack: 150 for a bet of 100.
\<close>

theorem win_hand_credit:
  "money (win_hand p h) =
     money p + of_int (bet h) + (if blackjack p then of_int (bet h) * (3 / 2) else of_int (bet h)) \<and>
   money (win_hand ((add_hand p h)\<lparr>blackjack := False\<rparr>) h) - money p = of_int (bet h) \<and>
   money (win_hand ((add_hand p h)\<lparr>blackjack := True\<rparr>) h) - money p = (3 / 2) * of_int (bet h) \<and>
   money (win_hand ((add_hand (Player 1) (Hand 100))\<lparr>blackjack := True\<rparr>) (Hand 100))
     - money (Player 1) = 150"
  by (simp add: win_hand_def add_hand_def Let_def Player_def Hand_def)

section \<open>Properties of the shoe\<close>

lemma length_concat_replicate: "length (concat (replicate k xs)) = k * length xs"
  by (induction k) simp_all

lemma count_concat_replicate:
  "count (mset (concat (replicate k xs))) x = k * count (mset xs) x"
  by (induction k) simp_all

lemma set_concat_replicate: "0 < k \<Longrightarrow> set (concat (replicate k xs)) = set xs"
  by (induction k) auto

lemma one_suit_eq: "one_suit = map Card [1, 2, 3, 4, 5, 6, 7, 8, 9, 10, 11, 12, 13]"
  by (simp add: one_suit_def upt_rec)

lemma length_one_suit: "length one_suit = 13"
  by (simp add: one_suit_eq)

lemma set_one_suit: "set one_suit = Card ` {1..13}"
proof -
  have "{1..13} = set [1, 2, 3, 4, 5, 6, 7, 8, 9, 10, 11, 12, 13 :: int]"
    by (rule set_eqI) (simp only: atLeastAtMost_iff list.set insert_iff empty_iff, presburger)
  then show ?thesis by (simp add: one_suit_eq)
qed

lemma distinct_one_suit: "distinct one_suit"
proof -
  have "distinct (map card_type one_suit)"
    unfolding one_suit_eq by (rule one_suit_labels_distinct)
  then show ?thesis by (rule distinct_map [THEN iffD1, THEN conjunct1])
qed

lemma count_one_suit: "r \<in> {1..13} \<Longrightarrow> count (mset one_suit) (Card r) = 1"
  using distinct_one_suit set_one_suit
  by (metis distinct_count_atmost_1 image_eqI)

lemma get_card_mset:
  "get_card s = Inr (c, s') \<Longrightarrow> mset (shoe_cards s) = add_mset c (mset (shoe_cards s'))"
proof -
  assume g: "get_card s = Inr (c, s')"
  then have ne: "shoe_cards s \<noteq> []" and c: "c = last (shoe_cards s)"
    and s': "shoe_cards s' = butlast (shoe_cards s)"
    by (auto simp: get_card_def split: if_splits)
  from ne have "shoe_cards s = butlast (shoe_cards s) @ [last (shoe_cards s)]" by simp
  then have "mset (shoe_cards s) = mset (butlast (shoe_cards s) @ [last (shoe_cards s)])"
    by simp
  with c s' show ?thesis by simp
qed

lemma get_card_length:
  "get_card s = Inr (c, s') \<Longrightarrow> Suc (length (shoe_cards s')) = length (shoe_cards s)"
  by (auto simp: get_card_def split: if_splits)

lemma draw_all:
  "shoe_cards s = cs \<Longrightarrow> draw (length cs) s = Inr (rev cs, s\<lparr>shoe_cards := []\<rparr>)"
proof (induction cs arbitrary: s rule: rev_induct)
  case Nil
  then show ?case by simp
next
  case (snoc c cs)
  have g: "get_card s = Inr (c, s\<lparr>shoe_cards := cs\<rparr>)"
    using snoc.prems by (simp add: get_card_def)
  have "draw (length cs) (s\<lparr>shoe_cards := cs\<rparr>) = Inr (rev cs, s\<lparr>shoe_cards := []\<rparr>)"
    using snoc.IH [of "s\<lparr>shoe_cards := cs\<rparr>"] by simp
  with g show ?case by simp
qed

lemma draw_too_many: "draw (Suc (length (shoe_cards s))) s = Inl IndexError"
proof (induction "shoe_cards s" arbitrary: s rule: rev_induct)
  case Nil
  then show ?case by (simp add: get_card_def)
next
  case (snoc c cs)
  have g: "get_card s = Inr (c, s\<lparr>shoe_cards := cs\<rparr>)"
    using snoc.hyps(2) [symmetric] by (simp add: get_card_def)
  have "draw (Suc (length cs)) (s\<lparr>shoe_cards := cs\<rparr>) = Inl IndexError"
    using snoc.hyps(1) [of "s\<lparr>shoe_cards := cs\<rparr>"] by simp
  with g snoc.hyps(2) [symmetric] show ?case by simp
qed

lemma shuffle_loop_mset: "i < length xs \<Longrightarrow> mset (shuffle_loop r i xs) = mset xs"
proof (induction i arbitrary: xs)
  case 0
  then show ?case by simp
next
  case (Suc i)
  let ?j = "r (Suc i) mod (Suc i + 1)"
  have j: "?j < length xs" using Suc.prems
  proof -
    have "?j < Suc (Suc i)" by simp
    with Suc.prems show ?thesis by linarith
  qed
  let ?ys = "xs[Suc i := xs ! ?j, ?j := xs ! Suc i]"
  have "mset ?ys = mset xs" using Suc.prems j by (simp add: mset_swap)
  moreover have "i < length ?ys" using Suc.prems by simp
  ultimately show ?case using Suc.IH [of ?ys] by (simp add: Let_def)
qed

lemma shuffle_mset: "mset (shoe_cards (shuffle r s)) = mset (shoe_cards s)"
proof (cases "shoe_cards s = []")
  case True
  then show ?thesis by (simp add: shuffle_def)
next
  case False
  then have "length (shoe_cards s) - 1 < length (shoe_cards s)" by simp
  then show ?thesis by (simp add: shuffle_def shuffle_loop_mset)
qed

lemma length_Shoe: "length (shoe_cards (Shoe n)) = nat (n * 4) * 13"
  by (simp add: Shoe_def length_concat_replicate length_one_suit)

lemma Shoe_emptied: "(Shoe n)\<lparr>shoe_cards := []\<rparr> = \<lparr>shoe_cards = []\<rparr>"
  by (simp add: Shoe_def)

lemma Shoe_length: "1 \<le> n \<Longrightarrow> length (shoe_cards (Shoe n)) = nat (52 * n)"
  by (simp add: length_Shoe nat_mult_distrib)

lemma Shoe_count:
  "r \<in> {1..13} \<Longrightarrow> count (mset (shoe_cards (Shoe n))) (Card r) = nat (4 * n)"
  by (simp add: Shoe_def count_concat_replicate count_one_suit mult.commute)

lemma Shoe_set: "1 \<le> n \<Longrightarrow> set (shoe_cards (Shoe n)) = Card ` {1..13}"
proof -
  assume "1 \<le> n"
  then have "0 < nat (n * 4)" by simp
  then show ?thesis by (simp add: Shoe_def set_concat_replicate set_one_suit)
qed

lemma Shoe_draw_all:
  assumes "1 \<le> n"
  shows "\<exists>cs. draw (nat (52 * n)) (Shoe n) = Inr (cs, \<lparr>shoe_cards = []\<rparr>) \<and>
      mset cs = mset (shoe_cards (Shoe n))"
proof -
  have "draw (length (shoe_cards (Shoe n))) (Shoe n)
      = Inr (rev (shoe_cards (Shoe n)), (Shoe n)\<lparr>shoe_cards := []\<rparr>)"
    by (rule draw_all) (rule refl)
  then have "draw (nat (52 * n)) (Shoe n) = Inr (rev (shoe_cards (Shoe n)), \<lparr>shoe_cards = []\<rparr>)"
    by (simp only: Shoe_length [OF assms] Shoe_emptied)
  moreover have "mset (rev (shoe_cards (Shoe n))) = mset (shoe_cards (Shoe n))"
    by (rule mset_rev)
  ultimately show ?thesis by blast
qed

lemma Shoe_draw_too_many:
  assumes "1 \<le> n"
  shows "draw (Suc (nat (52 * n))) (Shoe n) = Inl IndexError"
proof -
  have "draw (Suc (length (shoe_cards (Shoe n)))) (Shoe n) = Inl IndexError"
    by (rule draw_too_many)
  then show ?thesis by (simp only: Shoe_length [OF assms])
qed

lemma shuffle_length: "length (shoe_cards (shuffle rnd s)) = length (shoe_cards s)"
  using shuffle_mset [of rnd s] by (rule mset_eq_length)

text \<open>
  Claim C8. A shoe of \<open>n \<ge> 1\<close> decks holds \<open>52 n\<close> cards: \<open>4 n\<close> cards of each of the
  ranks 1 to 13 and no others. Drawing \<open>52 n\<close> times returns these cards and leaves the
  shoe empty, and one more draw fails. Every draw removes exactly the card it returns.
  Shuffling keeps the number of cards and the multiset of cards, whatever numbers the
  random source gives.
\<close>

theorem shoe_composition:
  "(1 \<le> n \<longrightarrow>
      length (shoe_cards (Shoe n)) = nat (52 * n) \<and>
      (\<forall>r \<in> {1..13}. count (mset (shoe_cards (Shoe n))) (Card r) = nat (4 * n)) \<and>
      set (shoe_cards (Shoe n)) = Card ` {1..13} \<and>
      (\<exists>cs. draw (nat (52 * n)) (Shoe n) = Inr (cs, \<lparr>shoe_cards = []\<rparr>) \<and>
            mset cs = mset (shoe_cards (Shoe n))) \<and>
      draw (Suc (nat (52 * n))) (Shoe n) = Inl IndexError) \<and>
   (get_card s = Inr (c, s') \<longrightarrow>
      mset (shoe_cards s) = add_mset c (mset (shoe_cards s')) \<and>
      Suc (length (shoe_cards s')) = length (shoe_cards s)) \<and>
   length (shoe_cards (shuffle rnd s)) = length (shoe_cards s) \<and>
   mset (shoe_cards (shuffle rnd s)) = mset (shoe_cards s)"
proof (intro conjI impI ballI)
  assume n: "1 \<le> n"
  show "length (shoe_cards (Shoe n)) = nat (52 * n)" using n by (rule Shoe_length)
  show "set (shoe_cards (Shoe n)) = Card ` {1..13}" using n by (rule Shoe_set)
  show "\<exists>cs. draw (nat (52 * n)) (Shoe n) = Inr (cs, \<lparr>shoe_cards = []\<rparr>) \<and>
      mset cs = mset (shoe_cards (Shoe n))"
    using n by (rule Shoe_draw_all)
  show "draw (Suc (nat (52 * n))) (Shoe n) = Inl IndexError"
    using n by (rule Shoe_draw_too_many)
next
  fix r :: int
  assume "r \<in> {1..13}"
  then show "count (mset (shoe_cards (Shoe n))) (Card r) = nat (4 * n)" by (rule Shoe_count)
next
  assume g: "get_card s = Inr (c, s')"
  show "mset (shoe_cards s) = add_mset c (mset (shoe_cards s'))" using g by (rule get_card_mset)
  show "Suc (length (shoe_cards s')) = length (shoe_cards s)" using g by (rule get_card_length)
next
  show "length (shoe_cards (shuffle rnd s)) = length (shoe_cards s)" by (rule shuffle_length)
  show "mset (shoe_cards (shuffle rnd s)) = mset (shoe_cards s)" by (rule shuffle_mset)
qed

theorem shoe_composition_witness:
  "(1::int) \<le> 2 \<and> length (shoe_cards (Shoe 2)) = 104 \<and>
   (3::int) \<in> {1..13} \<and> count (mset (shoe_cards (Shoe 2))) (Card 3) = 8 \<and>
   get_card \<lparr>shoe_cards = [Card 3, Card 5]\<rparr> = Inr (Card 5, \<lparr>shoe_cards = [Card 3]\<rparr>) \<and>
   mset [Card 3, Card 5] = add_mset (Card 5) (mset [Card 3])"
proof -
  have g: "get_card \<lparr>shoe_cards = [Card 3, Card 5]\<rparr> = Inr (Card 5, \<lparr>shoe_cards = [Card 3]\<rparr>)"
    by (simp add: get_card_def)
  have n: "(1::int) \<le> 2" and r: "(3::int) \<in> {1..13}" by simp_all
  note t = shoe_composition [of 2 "\<lparr>shoe_cards = [Card 3, Card 5]\<rparr>" "Card 5"
      "\<lparr>shoe_cards = [Card 3]\<rparr>" id]
  note t1 = t [THEN conjunct1, THEN mp, OF n]
  have len: "length (shoe_cards (Shoe 2)) = 104"
    using t1 [THEN conjunct1] by simp
  have cnt: "count (mset (shoe_cards (Shoe 2))) (Card 3) = 8"
    using t1 [THEN conjunct2, THEN conjunct1, THEN bspec, OF r] by simp
  have ms: "mset [Card 3, Card 5] = add_mset (Card 5) (mset [Card 3])"
    using t [THEN conjunct2, THEN conjunct1, THEN mp, OF g, THEN conjunct1] by simp
  from n len r cnt g ms show ?thesis by (intro conjI)
qed

section \<open>Properties of splitting\<close>

lemma can_split_two_cards:
  "can_split h \<Longrightarrow> \<exists>c1 c2. cards h = [c1, c2] \<and> card_type c1 = card_type c2"
proof -
  assume cs: "can_split h"
  then have "length (cards h) = 2" by (simp add: can_split_def)
  then obtain c1 c2 where "cards h = [c1, c2]"
    by (cases "cards h"; cases "tl (cards h)") auto
  with cs show ?thesis by (simp add: can_split_def)
qed

lemma split_two_cards:
  assumes "i < length (hands p)" and "cards (hands p ! i) = [c1, c2]"
  shows "split p i =
     Inr (p\<lparr>money := money p - of_int (bet (hands p ! i)),
            hands := (hands p)[i := (hands p ! i)\<lparr>cards := [c1], split_ace := True\<rparr>]
              @ [(add (Hand (bet (hands p ! i))) c2)\<lparr>split_ace := True\<rparr>]\<rparr>)"
  using assms by (simp add: split_def Let_def)

text \<open>
  Claim C5. Splitting hand \<open>i\<close> of a player, when that hand can be split, the player has
  fewer than four hands and the money covers the bet of the hand: the hand holds two
  cards; the money goes down by exactly the bet of the hand and stays non-negative; the
  hand keeps its bet and its first card; a new hand with the same bet and the second
  card is appended after the player's other hands, which are unchanged.
\<close>

theorem split_effect:
  assumes "i < length (hands p)" and "can_split (hands p ! i)"
    and "length (hands p) < 4" and "of_int (bet (hands p ! i)) \<le> money p"
  shows "\<exists>c1 c2 p'.
     cards (hands p ! i) = [c1, c2] \<and> split p i = Inr p' \<and>
     money p' = money p - of_int (bet (hands p ! i)) \<and> 0 \<le> money p' \<and>
     hands p' = (take i (hands p)) @ [hands p' ! i] @ (drop (Suc i) (hands p)) @ [last (hands p')] \<and>
     cards (hands p' ! i) = [c1] \<and> bet (hands p' ! i) = bet (hands p ! i) \<and>
     cards (last (hands p')) = [c2] \<and> bet (last (hands p')) = bet (hands p ! i) \<and>
     length (hands p') \<le> 4"
proof -
  from can_split_two_cards [OF assms(2)] obtain c1 c2
    where cs: "cards (hands p ! i) = [c1, c2]" by blast
  define h1 where "h1 = (hands p ! i)\<lparr>cards := [c1], split_ace := True\<rparr>"
  define h2 where "h2 = (add (Hand (bet (hands p ! i))) c2)\<lparr>split_ace := True\<rparr>"
  define p' where "p' = p\<lparr>money := money p - of_int (bet (hands p ! i)),
               hands := (hands p)[i := h1] @ [h2]\<rparr>"
  have sp: "split p i = Inr p'"
    unfolding p'_def h1_def h2_def using assms(1) cs by (rule split_two_cards)
  have hs: "hands p' = (hands p)[i := h1] @ [h2]" by (simp add: p'_def)
  have at_i: "hands p' ! i = h1" using assms(1) by (simp add: hs nth_append)
  have lst: "last (hands p') = h2" by (simp add: hs)
  have "(hands p)[i := h1] = take i (hands p) @ [h1] @ drop (Suc i) (hands p)"
    using assms(1) by (simp add: upd_conv_take_nth_drop)
  then have "hands p' = take i (hands p) @ [h1] @ drop (Suc i) (hands p) @ [h2]"
    by (simp add: hs)
  then have shape: "hands p' = take i (hands p) @ [hands p' ! i] @ drop (Suc i) (hands p)
      @ [last (hands p')]"
    unfolding at_i lst .
  have m: "money p' = money p - of_int (bet (hands p ! i))" by (simp add: p'_def)
  have nonneg: "0 \<le> money p'" using assms(4) by (simp add: m)
  have c1: "cards (hands p' ! i) = [c1]" and b1: "bet (hands p' ! i) = bet (hands p ! i)"
    by (simp_all add: at_i h1_def)
  have c2: "cards (last (hands p')) = [c2]"
    and b2: "bet (last (hands p')) = bet (hands p ! i)"
    by (simp_all add: lst h2_def add_def Hand_def Let_def)
  have len: "length (hands p') \<le> 4" using assms(3) by (simp add: hs)
  show ?thesis
    by (intro exI conjI) (rule cs sp m nonneg shape c1 b1 c2 b2 len)+
qed

theorem split_effect_witness:
  "\<exists>p'. split (add_hand (Player 1) (hand_of 10 [Card 8, Card 8])) 0 = Inr p' \<and>
     money p' = 980 \<and> length (hands p') = 2 \<and>
     map cards (hands p') = [[Card 8], [Card 8]] \<and> map bet (hands p') = [10, 10]"
proof -
  let ?p = "add_hand (Player 1) (hand_of 10 [Card 8, Card 8])"
  have h: "hands ?p = [hand_of 10 [Card 8, Card 8]]" and m: "money ?p = 990"
    by (simp_all add: add_hand_def Player_def hand_of_simps)
  have 1: "0 < length (hands ?p)" and 3: "length (hands ?p) < 4" by (simp_all add: h)
  have 2: "can_split (hands ?p ! 0)" by (simp add: h can_split_def hand_of_simps)
  have 4: "of_int (bet (hands ?p ! 0)) \<le> money ?p" by (simp add: h m hand_of_simps)
  from split_effect [OF 1 2 3 4] obtain c1 c2 p' where
    r: "cards (hands ?p ! 0) = [c1, c2]" "split ?p 0 = Inr p'"
      "money p' = money ?p - of_int (bet (hands ?p ! 0))"
      "hands p' = (take 0 (hands ?p)) @ [hands p' ! 0] @ (drop (Suc 0) (hands ?p)) @ [last (hands p')]"
      "cards (hands p' ! 0) = [c1]" "bet (hands p' ! 0) = bet (hands ?p ! 0)"
      "cards (last (hands p')) = [c2]" "bet (last (hands p')) = bet (hands ?p ! 0)"
    by (elim exE conjE)
  from r(1) have c: "c1 = Card 8" "c2 = Card 8" by (auto simp: h hand_of_simps)
  from r(4) have hs: "hands p' = [hands p' ! 0, last (hands p')]" by (simp add: h)
  have "map cards (hands p') = [[Card 8], [Card 8]]"
    by (subst hs) (simp add: r(5) r(7) c)
  moreover have "map bet (hands p') = [10, 10]"
    by (subst hs) (simp add: r(6) r(8) h hand_of_simps)
  moreover have "length (hands p') = 2" by (subst hs) simp
  moreover have "money p' = 980" using r(3) by (simp add: m h hand_of_simps)
  ultimately show ?thesis using r(2) by (intro exI [of _ p']) simp
qed

text \<open>
  Claim C3. The field \<^verbatim>\<open>split_ace\<close> is documented as true for a hand that resulted
  from a split pair of aces, but \<^verbatim>\<open>split\<close> sets it on both hands whatever the pair
  was. An 8 is not an ace; after a pair of 8s is split both hands carry the flag, and
  the turn of the player ends without reading the inputs that follow: both hands have
  become final.
\<close>

theorem split_marks_every_pair:
  "card_type (Card 8) \<noteq> ''A'' \<and>
   map_sum id (\<lambda>p'. map split_ace (hands p'))
     (split (add_hand (Player 1) (hand_of 10 [Card 8, Card 8])) 0) = Inr [True, True] \<and>
   map_sum id (\<lambda>(ok, s, p', rest). (ok, map split_ace (hands p'), rest))
     (do_player_turn (Shoe 1) (add_hand (Player 1) (hand_of 10 [Card 8, Card 8]))
        [''sp'', ''h'', ''s'']) = Inr (True, [True, True], [''h'', ''s''])"
  by code_simp

section \<open>Properties of the game\<close>

lemma length_players_Game: "length (players (Game n)) = nat n"
  by (simp add: Game_def)

text \<open>
  Claim C6. The shoe made when the game is constructed has \<open>max n 6\<close> decks, but the
  shoe made by \<^verbatim>\<open>reset\<close> has as many decks as there are players: \<open>52\<close> cards for
  each player. With one player the first has 312 cards and the second 52.
\<close>

theorem reset_shoe_size:
  "shoe (Game n) = Shoe (max n 6) \<and>
   shoe (reset rnd g) = shuffle rnd (Shoe (int (length (players g)))) \<and>
   length (shoe_cards (shoe (reset rnd g))) = 52 * length (players g) \<and>
   length (shoe_cards (shoe (Game 1))) = 312 \<and>
   length (shoe_cards (shoe (reset rnd (Game 1)))) = 52"
proof -
  have a: "shoe (Game n) = Shoe (max n 6)" by (simp add: Game_def)
  have b: "shoe (reset rnd g) = shuffle rnd (Shoe (int (length (players g))))"
    by (simp add: reset_def)
  have c: "length (shoe_cards (shoe (reset rnd g))) = 52 * length (players g)" for g
    by (simp add: reset_def shuffle_length length_Shoe nat_mult_distrib)
  have d: "length (shoe_cards (shoe (Game 1))) = 312"
    by (simp add: Game_def length_Shoe)
  have e: "length (shoe_cards (shoe (reset rnd (Game 1)))) = 52"
    by (simp add: c length_players_Game)
  from a b c d e show ?thesis by (intro conjI)
qed

section \<open>Properties of bet taking\<close>

lemma take_bet_consumes:
  "take_bet int_of p ins = Some (ok, p', rest') \<Longrightarrow> length rest' < length ins"
proof (induction ins)
  case Nil
  then show ?case by simp
next
  case (Cons b ins)
  show ?case
  proof (cases "take_bet int_of p (b # ins) = take_bet int_of p ins")
    case True
    with Cons have "length rest' < length ins" by simp
    then show ?thesis by simp
  next
    case False
    with Cons.prems have "rest' = ins"
      by (auto split: if_splits option.splits)
    then show ?thesis by simp
  qed
qed

lemma take_bet_valid:
  assumes "b \<noteq> ''q''" and "int_of b = Some n" and "0 \<le> n" and "of_int n \<le> money p"
  shows "take_bet int_of p (b # rest) = Some (True, add_hand p (Hand n), rest)"
  using assms by simp

lemma take_bet_invalid:
  assumes "b \<noteq> ''q''" and "\<not> (\<exists>n. int_of b = Some n \<and> 0 \<le> n \<and> of_int n \<le> money p)"
  shows "take_bet int_of p (b # rest) = take_bet int_of p rest"
  using assms by (cases "int_of b") auto

lemma dec_int_examples:
  "dec_int ''100'' = Some 100" "dec_int ''-5'' = Some (- 5)" "dec_int ''2000'' = Some 2000"
  "dec_int ''ten'' = None"
  by code_simp+

text \<open>
  Claim C9. At the bet prompt of a player, an input \<open>b\<close> other than the quit word is
  accepted at once exactly when it reads as an integer \<open>n\<close> with \<open>0 \<le> n\<close> and \<open>n\<close> at
  most the player's money. Then a hand with bet \<open>n\<close> is appended to the player's hands
  and the money goes down by exactly \<open>n\<close>. Any other input changes nothing: the loop
  goes on with the same player, unchanged, at the next input.
\<close>

theorem take_bet_accepts:
  assumes "b \<noteq> ''q''"
  shows
   "((\<exists>p'. take_bet int_of p (b # rest) = Some (True, p', rest)) \<longleftrightarrow>
       (\<exists>n. int_of b = Some n \<and> 0 \<le> n \<and> of_int n \<le> money p)) \<and>
    (\<forall>n. int_of b = Some n \<and> 0 \<le> n \<and> of_int n \<le> money p \<longrightarrow>
       (\<exists>p'. take_bet int_of p (b # rest) = Some (True, p', rest) \<and>
          hands p' = hands p @ [Hand n] \<and> bet (Hand n) = n \<and>
          money p' = money p - of_int n)) \<and>
    (\<not> (\<exists>n. int_of b = Some n \<and> 0 \<le> n \<and> of_int n \<le> money p) \<longrightarrow>
       take_bet int_of p (b # rest) = take_bet int_of p rest)"
proof (intro conjI iffI allI impI)
  assume "\<exists>p'. take_bet int_of p (b # rest) = Some (True, p', rest)"
  then obtain p' where acc: "take_bet int_of p (b # rest) = Some (True, p', rest)" ..
  show "\<exists>n. int_of b = Some n \<and> 0 \<le> n \<and> of_int n \<le> money p"
  proof (rule ccontr)
    assume "\<not> ?thesis"
    with assms have "take_bet int_of p (b # rest) = take_bet int_of p rest"
      by (rule take_bet_invalid)
    with acc have "take_bet int_of p rest = Some (True, p', rest)" by simp
    then have "length rest < length rest" by (rule take_bet_consumes)
    then show False by simp
  qed
next
  assume "\<exists>n. int_of b = Some n \<and> 0 \<le> n \<and> of_int n \<le> money p"
  then obtain n where "int_of b = Some n" "0 \<le> n" "of_int n \<le> money p" by blast
  with assms have "take_bet int_of p (b # rest) = Some (True, add_hand p (Hand n), rest)"
    by (rule take_bet_valid)
  then show "\<exists>p'. take_bet int_of p (b # rest) = Some (True, p', rest)" ..
next
  fix n
  assume "int_of b = Some n \<and> 0 \<le> n \<and> of_int n \<le> money p"
  then have "int_of b = Some n" "0 \<le> n" "of_int n \<le> money p" by simp_all
  with assms have "take_bet int_of p (b # rest) = Some (True, add_hand p (Hand n), rest)"
    by (rule take_bet_valid)
  moreover have "hands (add_hand p (Hand n)) = hands p @ [Hand n]"
    and "money (add_hand p (Hand n)) = money p - of_int n" and "bet (Hand n) = n"
    by (simp_all add: add_hand_def Hand_def)
  ultimately show "\<exists>p'. take_bet int_of p (b # rest) = Some (True, p', rest) \<and>
      hands p' = hands p @ [Hand n] \<and> bet (Hand n) = n \<and> money p' = money p - of_int n"
    by blast
next
  assume "\<not> (\<exists>n. int_of b = Some n \<and> 0 \<le> n \<and> of_int n \<le> money p)"
  with assms show "take_bet int_of p (b # rest) = take_bet int_of p rest"
    by (rule take_bet_invalid)
qed

theorem take_bet_accepts_witness:
  "''100'' \<noteq> ''q'' \<and> dec_int ''100'' = Some 100 \<and> (0::int) \<le> 100 \<and>
   (of_int 100 :: rat) \<le> money (Player 1) \<and>
   (\<exists>p'. take_bet dec_int (Player 1) [''100'', ''s''] = Some (True, p', [''s'']) \<and>
      hands p' = [Hand 100] \<and> money p' = 900) \<and>
   ''2000'' \<noteq> ''q'' \<and> dec_int ''2000'' = Some 2000 \<and> \<not> (of_int 2000 :: rat) \<le> money (Player 1) \<and>
   take_bet dec_int (Player 1) [''2000'', ''100''] = take_bet dec_int (Player 1) [''100'']"
proof -
  have q: "''100'' \<noteq> ''q''" "''2000'' \<noteq> ''q''" by simp_all
  have m: "money (Player 1) = 1000" "hands (Player 1) = []" by (simp_all add: Player_def)
  have v: "dec_int ''100'' = Some 100 \<and> (0::int) \<le> 100 \<and> (of_int 100 :: rat) \<le> money (Player 1)"
    by (simp add: dec_int_examples m)
  note t = take_bet_accepts [OF q(1), of dec_int "Player 1" "[''s'']"]
  from t [THEN conjunct2, THEN conjunct1, THEN spec, THEN mp, OF v]
  have acc: "\<exists>p'. take_bet dec_int (Player 1) [''100'', ''s''] = Some (True, p', [''s'']) \<and>
      hands p' = [Hand 100] \<and> money p' = 900"
    by (simp add: m)
  have nv: "\<not> (\<exists>n. dec_int ''2000'' = Some n \<and> 0 \<le> n \<and> of_int n \<le> money (Player 1))"
    by (simp add: dec_int_examples m)
  note u = take_bet_accepts [OF q(2), of dec_int "Player 1" "[''100'']"]
  from u [THEN conjunct2, THEN conjunct2, THEN mp, OF nv]
  have rej: "take_bet dec_int (Player 1) [''2000'', ''100''] = take_bet dec_int (Player 1) [''100'']" .
  have big: "\<not> (of_int 2000 :: rat) \<le> money (Player 1)" by (simp add: m)
  from q v acc rej big dec_int_examples(3) show ?thesis by (intro conjI) simp_all
qed

section \<open>Properties of settlement\<close>

lemma result_line_inj: "(result_line p i w = result_line p i w') = (w = w')"
  by (simp add: result_line_def)

lemma win_hand_money:
  "\<not> blackjack p \<Longrightarrow> win_hand p hand = p\<lparr>money := money p + 2 * of_int (bet hand)\<rparr>"
  by (simp add: win_hand_def Let_def)

lemma push_hand_money: "push_hand p hand = p\<lparr>money := money p + of_int (bet hand)\<rparr>"
  by (simp add: push_hand_def)

lemma settle_hand_fst:
  "\<not> blackjack p \<Longrightarrow>
   fst (settle_hand db dt p i hand) = p\<lparr>money := money p + credit db dt hand\<rparr>"
  by (simp add: settle_hand_def credit_def Let_def win_hand_money push_hand_money)

lemma settle_hands_fst:
  "\<not> blackjack p \<Longrightarrow>
   fst (settle_hands db dt p i hs) = p\<lparr>money := money p + sum_list (map (credit db dt) hs)\<rparr>"
proof (induction hs arbitrary: p i)
  case Nil
  then show ?case by simp
next
  case (Cons hand hs)
  let ?p1 = "fst (settle_hand db dt p i hand)"
  have p1: "?p1 = p\<lparr>money := money p + credit db dt hand\<rparr>"
    using Cons.prems by (rule settle_hand_fst)
  then have "\<not> blackjack ?p1" using Cons.prems by simp
  then have "fst (settle_hands db dt ?p1 (Suc i) hs)
      = ?p1\<lparr>money := money ?p1 + sum_list (map (credit db dt) hs)\<rparr>"
    by (rule Cons.IH)
  then show ?case
    by (simp add: p1 case_prod_beta Let_def add.assoc)
qed

lemma is_active_no_blackjack: "is_active p \<Longrightarrow> \<not> blackjack p"
  by (auto simp: is_active_def split: if_splits)

lemma do_results_player_active:
  "is_active p \<Longrightarrow>
   fst (do_results_player d p) =
     p\<lparr>money := money p
        + sum_list (map (credit (dealer_bust d) (hand_value (dealer_hand d))) (hands p))\<rparr>"
  by (simp add: do_results_player_def settle_hands_fst is_active_no_blackjack)

lemma do_results_player_inactive: "\<not> is_active p \<Longrightarrow> do_results_player d p = (p, [])"
  by (simp add: do_results_player_def)

lemma do_results_players:
  "k < length (players g) \<Longrightarrow>
   players (fst (do_results g)) ! k = fst (do_results_player (dealer g) (players g ! k))"
  by (simp add: do_results_def Let_def)

lemma equal_total_not_bust:
  "\<not> is_bust hand \<Longrightarrow> hand_value hand = hand_value (dealer_hand d) \<Longrightarrow> \<not> dealer_bust d"
  by (simp add: is_bust_def dealer_bust_def)

text \<open>
  Claim C4. In settlement, for a hand that is not bust of a player without the blackjack
  flag (every active player is one): the hand is a win, credited by \<^verbatim>\<open>win_hand\<close> with
  twice the bet, exactly when the dealer is bust or the hand's value exceeds the
  dealer's total; it is a push, credited with the bet alone, exactly when the two values
  are equal; it is a loss, with no credit, exactly in the remaining case. After
  \<^verbatim>\<open>do_results\<close> an active player's money has grown by the sum of these credits over
  the player's hands, and a player who is not active is unchanged. A push gives back
  what \<^verbatim>\<open>add_hand\<close> took, so the player's money is as before the bet.
\<close>

theorem do_results_settlement:
  "(\<not> is_bust hand \<and> \<not> blackjack p \<longrightarrow>
      (settle_hand (dealer_bust d) (hand_value (dealer_hand d)) p i hand
           = (win_hand p hand, [result_line p i ''win''])
         \<longleftrightarrow> dealer_bust d \<or> hand_value hand > hand_value (dealer_hand d)) \<and>
      (settle_hand (dealer_bust d) (hand_value (dealer_hand d)) p i hand
           = (push_hand p hand, [result_line p i ''push''])
         \<longleftrightarrow> hand_value hand = hand_value (dealer_hand d)) \<and>
      (settle_hand (dealer_bust d) (hand_value (dealer_hand d)) p i hand
           = (p, [result_line p i ''loss''])
         \<longleftrightarrow> \<not> dealer_bust d \<and> hand_value hand < hand_value (dealer_hand d)) \<and>
      money (win_hand p hand) = money p + 2 * of_int (bet hand) \<and>
      money (push_hand p hand) = money p + of_int (bet hand) \<and>
      money (push_hand (add_hand p hand) hand) = money p) \<and>
   (k < length (players g) \<and> is_active (players g ! k) \<longrightarrow>
      players (fst (do_results g)) ! k =
        (players g ! k)\<lparr>money := money (players g ! k)
           + sum_list (map (credit (dealer_bust (dealer g)) (hand_value (dealer_hand (dealer g))))
               (hands (players g ! k)))\<rparr>) \<and>
   (k < length (players g) \<and> \<not> is_active (players g ! k) \<longrightarrow>
      players (fst (do_results g)) ! k = players g ! k)"
proof (intro conjI impI)
  assume a: "\<not> is_bust hand \<and> \<not> blackjack p"
  let ?db = "dealer_bust d" and ?dt = "hand_value (dealer_hand d)"
  have eq: "hand_value hand = ?dt \<Longrightarrow> \<not> ?db"
    using a equal_total_not_bust by blast
  have s: "settle_hand ?db ?dt p i hand =
      (if ?db \<or> hand_value hand > ?dt then (win_hand p hand, [result_line p i ''win''])
       else if hand_value hand = ?dt then (push_hand p hand, [result_line p i ''push''])
       else (p, [result_line p i ''loss'']))"
    using a by (simp add: settle_hand_def Let_def)
  show "settle_hand ?db ?dt p i hand = (win_hand p hand, [result_line p i ''win''])
      \<longleftrightarrow> ?db \<or> hand_value hand > ?dt"
    unfolding s by (simp add: result_line_inj)
  show "settle_hand ?db ?dt p i hand = (push_hand p hand, [result_line p i ''push''])
      \<longleftrightarrow> hand_value hand = ?dt"
    unfolding s using eq by (auto simp: result_line_inj)
  show "settle_hand ?db ?dt p i hand = (p, [result_line p i ''loss''])
      \<longleftrightarrow> \<not> ?db \<and> hand_value hand < ?dt"
    unfolding s by (auto simp: result_line_inj)
  show "money (win_hand p hand) = money p + 2 * of_int (bet hand)"
    using a by (simp add: win_hand_money)
  show "money (push_hand p hand) = money p + of_int (bet hand)"
    by (simp add: push_hand_money)
  show "money (push_hand (add_hand p hand) hand) = money p"
    by (simp add: push_hand_money add_hand_def)
next
  assume "k < length (players g) \<and> is_active (players g ! k)"
  then show "players (fst (do_results g)) ! k =
        (players g ! k)\<lparr>money := money (players g ! k)
           + sum_list (map (credit (dealer_bust (dealer g)) (hand_value (dealer_hand (dealer g))))
               (hands (players g ! k)))\<rparr>"
    by (simp add: do_results_players do_results_player_active)
next
  assume "k < length (players g) \<and> \<not> is_active (players g ! k)"
  then show "players (fst (do_results g)) ! k = players g ! k"
    by (simp add: do_results_players do_results_player_inactive)
qed

theorem do_results_settlement_witness:
  "(0::nat) < length (players \<lparr>shoe = Shoe 6,
        players = [add_hand (Player 1) (hand_of 50 [Card 10, Card 8])],
        dealer = Dealer\<lparr>dealer_hand := hand_of 0 [Card 13, Card 8]\<rparr>\<rparr>) \<and>
   is_active (add_hand (Player 1) (hand_of 50 [Card 10, Card 8])) \<and>
   hand_value (hand_of 50 [Card 10, Card 8]) = 18 \<and>
   hand_value (hand_of 0 [Card 13, Card 8]) = 18 \<and>
   money (Player 1) = 1000 \<and>
   money (add_hand (Player 1) (hand_of 50 [Card 10, Card 8])) = 950 \<and>
   money (players (fst (do_results \<lparr>shoe = Shoe 6,
        players = [add_hand (Player 1) (hand_of 50 [Card 10, Card 8])],
        dealer = Dealer\<lparr>dealer_hand := hand_of 0 [Card 13, Card 8]\<rparr>\<rparr>)) ! 0) = 1000"
proof -
  let ?p = "add_hand (Player 1) (hand_of 50 [Card 10, Card 8])"
  let ?d = "Dealer\<lparr>dealer_hand := hand_of 0 [Card 13, Card 8]\<rparr>"
  let ?g = "\<lparr>shoe = Shoe 6, players = [?p], dealer = ?d\<rparr>"
  have v1: "hand_value (hand_of 50 [Card 10, Card 8]) = 18" by code_simp
  have v2: "hand_value (hand_of 0 [Card 13, Card 8]) = 18" by code_simp
  have act: "is_active ?p" by code_simp
  have m0: "money (Player 1) = 1000" by (simp add: Player_def)
  have m: "money ?p = 950" by (simp add: add_hand_def Player_def hand_of_simps)
  have hs: "hands ?p = [hand_of 50 [Card 10, Card 8]]" by (simp add: add_hand_def Player_def)
  have cr: "credit (dealer_bust ?d) (hand_value (hand_of 0 [Card 13, Card 8]))
      (hand_of 50 [Card 10, Card 8]) = 50"
    by (simp add: credit_def dealer_bust_def is_bust_def v1 v2 hand_of_simps)
  have pre: "0 < length (players ?g) \<and> is_active (players ?g ! 0)"
    using act by simp
  from do_results_settlement [of _ _ _ _ 0 ?g, THEN conjunct2, THEN conjunct1, THEN mp, OF pre]
  have "players (fst (do_results ?g)) ! 0 = ?p\<lparr>money := money ?p
      + sum_list (map (credit (dealer_bust ?d) (hand_value (dealer_hand ?d))) (hands ?p))\<rparr>"
    by simp
  then have "money (players (fst (do_results ?g)) ! 0) = 1000"
    by (simp add: hs cr m)
  with pre act v1 v2 m0 m show ?thesis by (intro conjI) simp_all
qed

section \<open>The money of a player is never negative\<close>

lemma list_all_update:
  "list_all P xs \<Longrightarrow> (i < length xs \<Longrightarrow> P x) \<Longrightarrow> list_all P (xs[i := x])"
proof (induction xs arbitrary: i)
  case Nil
  then show ?case by simp
next
  case (Cons y ys)
  then show ?case by (cases i) auto
qed

lemma list_all_nth: "list_all P xs \<Longrightarrow> i < length xs \<Longrightarrow> P (xs ! i)"
  by (simp add: list_all_length)

lemma add_bet: "bet (add hand c) = bet hand"
  by (simp add: add_def Let_def)

lemma hit_bet: "hit s hand = Inr (s', hand') \<Longrightarrow> bet hand' = bet hand"
  by (auto simp: hit_def add_bet split: sum.splits)

lemma hit_twice_bet: "hit_twice s hand = Inr (s', hand') \<Longrightarrow> bet hand' = bet hand"
  by (auto simp: hit_twice_def split: sum.splits) (metis hit_bet)

lemma Player_ok: "player_ok (Player n)"
  by (simp add: player_ok_def Player_def)

lemma player_reset_ok: "player_ok p \<Longrightarrow> player_ok (player_reset p)"
  by (simp add: player_ok_def player_reset_def)

lemma add_hand_ok:
  "player_ok p \<Longrightarrow> 0 \<le> bet hand \<Longrightarrow> of_int (bet hand) \<le> money p \<Longrightarrow> player_ok (add_hand p hand)"
  by (simp add: player_ok_def add_hand_def)

lemma win_hand_ok: "player_ok p \<Longrightarrow> 0 \<le> bet hand \<Longrightarrow> player_ok (win_hand p hand)"
  by (simp add: player_ok_def win_hand_def Let_def)

lemma push_hand_ok: "player_ok p \<Longrightarrow> 0 \<le> bet hand \<Longrightarrow> player_ok (push_hand p hand)"
  by (simp add: player_ok_def push_hand_def)

lemma hit_hand_ok:
  assumes "player_ok p" and "hit_hand s p i = Inr (s', p')"
  shows "player_ok p'"
proof -
  from assms(2) obtain hand' where h: "hit s (hands p ! i) = Inr (s', hand')"
    and p': "p' = p\<lparr>hands := (hands p)[i := hand']\<rparr>"
    by (auto simp: hit_hand_def split: sum.splits)
  have "i < length (hands p) \<Longrightarrow> 0 \<le> bet hand'"
    using assms(1) hit_bet [OF h] by (simp add: player_ok_def list_all_length)
  with assms(1) show ?thesis
    by (simp add: p' player_ok_def list_all_update)
qed

lemma double_ok:
  assumes "player_ok p" and "i < length (hands p)"
    and "of_int (bet (hands p ! i)) \<le> money p"
  shows "player_ok (double p i)"
proof -
  have "0 \<le> bet (hands p ! i)"
    using assms(1,2) by (simp add: player_ok_def list_all_length)
  with assms show ?thesis
    by (simp add: double_def Let_def player_ok_def list_all_update)
qed

lemma split_ok:
  assumes "player_ok p" and "i < length (hands p)"
    and "of_int (bet (hands p ! i)) \<le> money p" and "split p i = Inr p'"
  shows "player_ok p'"
proof -
  have b: "0 \<le> bet (hands p ! i)"
    using assms(1,2) by (simp add: player_ok_def list_all_length)
  from assms(4) have p': "p' = p\<lparr>money := money p - of_int (bet (hands p ! i)),
      hands := (hands p)[i := (hands p ! i)\<lparr>cards := butlast (cards (hands p ! i)),
                                              split_ace := True\<rparr>]
        @ [(add (Hand (bet (hands p ! i))) (last (cards (hands p ! i))))\<lparr>split_ace := True\<rparr>]\<rparr>"
    by (simp add: split_def Let_def split: if_splits)
  show ?thesis
    using assms(1,3) b by (simp add: p' player_ok_def list_all_update add_bet Hand_def)
qed

lemma do_player_turn_from_ok:
  "player_ok p \<Longrightarrow> do_player_turn_from s p i ins = Inr (ok, s', p', rest) \<Longrightarrow> player_ok p'"
proof (induction s p i ins arbitrary: ok s' p' rest rule: do_player_turn_from.induct)
  case (1 s p i ins)
  note run = "1.prems"(2) and okp = "1.prems"(1)
  show ?case
  proof (cases "length (hands p) \<le> i")
    case True
    with run okp show ?thesis by (simp add: do_player_turn_from.simps [of s p i ins])
  next
    case inside: False
    then have inside': "i < length (hands p)" by simp
    show ?thesis
    proof (cases "split_ace (hands p ! i)")
      case True
      with inside run have "do_player_turn_from s p (Suc i) ins = Inr (ok, s', p', rest)"
        by (simp add: do_player_turn_from.simps [of s p i ins])
      with "1.IH"(1) [OF inside True okp] show ?thesis by blast
    next
      case open_hand: False
      show ?thesis
      proof (cases ins)
        case Nil
        with inside open_hand run show ?thesis
          by (subst (asm) do_player_turn_from.simps) simp
      next
        case (Cons user_input ins1)
        note ih = "1.IH"(2-)[OF inside open_hand Cons]
        have unfold: "do_player_turn_from s p i (user_input # ins1) = Inr (ok, s', p', rest)"
          using run Cons by simp
        consider (q) "user_input = ''q''" | (h) "user_input = ''h''" | (s) "user_input = ''s''"
          | (sp) "user_input = ''sp''" | (d) "user_input = ''d''"
          | (other) "user_input \<noteq> ''q''" "user_input \<noteq> ''h''" "user_input \<noteq> ''s''"
              "user_input \<noteq> ''sp''" "user_input \<noteq> ''d''"
          by blast
        then show ?thesis
        proof cases
          case q
          show ?thesis
          proof (cases ins1)
            case Nil
            with unfold inside open_hand q show ?thesis
              by (subst (asm) do_player_turn_from.simps) simp
          next
            case (Cons quit ins2)
            show ?thesis
            proof (cases "quit = ''y''")
              case True
              with unfold inside open_hand q Cons have "p' = p"
                by (subst (asm) do_player_turn_from.simps) simp
              with okp show ?thesis by simp
            next
              case False
              with unfold inside open_hand q Cons
              have "do_player_turn_from s p i ins2 = Inr (ok, s', p', rest)"
                by (subst (asm) do_player_turn_from.simps) simp
              from ih(1) [OF q Cons False okp this] show ?thesis .
            qed
          qed
        next
          case other
          with unfold inside open_hand
          have "do_player_turn_from s p i ins1 = Inr (ok, s', p', rest)"
            by (subst (asm) do_player_turn_from.simps) simp
          from ih(9) [OF other okp this] show ?thesis .
        next
          case s
          with unfold inside open_hand
          have "do_player_turn_from s p (Suc i) ins1 = Inr (ok, s', p', rest)"
            by (subst (asm) do_player_turn_from.simps) simp
          moreover from s have "user_input \<noteq> ''q''" "user_input \<noteq> ''h''" by simp_all
          ultimately show ?thesis using ih(4) s okp by blast
        next
          case h
          then have n: "user_input \<noteq> ''q''" by simp
          from unfold inside open_hand h obtain s1 p1
            where hh: "hit_hand s p i = Inr (s1, p1)"
              and run1: "(if player_bust (hands p1 ! i)
                          then do_player_turn_from s1 p1 (Suc i) ins1
                          else do_player_turn_from s1 p1 i ins1) = Inr (ok, s', p', rest)"
            by (subst (asm) do_player_turn_from.simps) (auto split: sum.splits)
          from okp hh have ok1: "player_ok p1" by (rule hit_hand_ok)
          show ?thesis
          proof (cases "player_bust (hands p1 ! i)")
            case True
            with run1 have "do_player_turn_from s1 p1 (Suc i) ins1 = Inr (ok, s', p', rest)"
              by simp
            from ih(2) [OF n h hh refl True ok1 this] show ?thesis .
          next
            case False
            with run1 have "do_player_turn_from s1 p1 i ins1 = Inr (ok, s', p', rest)"
              by simp
            from ih(3) [OF n h hh refl False ok1 this] show ?thesis .
          qed
        next
          case sp
          then have n: "user_input \<noteq> ''q''" "user_input \<noteq> ''h''" "user_input \<noteq> ''s''"
            by simp_all
          show ?thesis
          proof (cases "can_split (hands p ! i) \<and> length (hands p) < 4
              \<and> of_int (bet (hands p ! i)) \<le> money p")
            case True
            with unfold inside open_hand sp obtain p1 s2 p2 s3 p3
              where sp1: "split p i = Inr p1"
                and h1: "hit_hand s p1 i = Inr (s2, p2)"
                and h2: "hit_hand s2 p2 (length (hands p)) = Inr (s3, p3)"
                and run1: "do_player_turn_from s3 p3 i ins1 = Inr (ok, s', p', rest)"
              by (subst (asm) do_player_turn_from.simps) (auto split: sum.splits)
            from True have "of_int (bet (hands p ! i)) \<le> money p" by simp
            with okp inside' have "player_ok p1" using sp1 by (rule split_ok)
            then have "player_ok p2" using h1 by (rule hit_hand_ok)
            then have ok3: "player_ok p3" using h2 by (rule hit_hand_ok)
            from ih(5) [OF n sp True sp1 h1 refl h2 refl ok3 run1] show ?thesis .
          next
            case False
            with unfold inside open_hand sp
            have "do_player_turn_from s p i ins1 = Inr (ok, s', p', rest)"
              by (subst (asm) do_player_turn_from.simps) auto
            from ih(6) [OF n sp False okp this] show ?thesis .
          qed
        next
          case d
          then have n: "user_input \<noteq> ''q''" "user_input \<noteq> ''h''" "user_input \<noteq> ''s''"
            "user_input \<noteq> ''sp''"
            by simp_all
          show ?thesis
          proof (cases "of_int (bet (hands p ! i)) \<le> money p")
            case True
            with unfold inside open_hand d obtain s1 p1
              where h1: "hit_hand s (double p i) i = Inr (s1, p1)"
                and run1: "do_player_turn_from s1 p1 (Suc i) ins1 = Inr (ok, s', p', rest)"
              by (subst (asm) do_player_turn_from.simps) (auto split: sum.splits)
            from okp inside' True have "player_ok (double p i)" by (rule double_ok)
            then have ok1: "player_ok p1" using h1 by (rule hit_hand_ok)
            from ih(7) [OF n d True h1 refl ok1 run1] show ?thesis .
          next
            case False
            with unfold inside open_hand d
            have "do_player_turn_from s p i ins1 = Inr (ok, s', p', rest)"
              by (subst (asm) do_player_turn_from.simps) auto
            from ih(8) [OF n d False okp this] show ?thesis .
          qed
        qed
      qed
    qed
  qed
qed

lemma do_player_turns_loop_ok:
  "list_all player_ok ps \<Longrightarrow> do_player_turns_loop s ps ins = Inr (ok, s', ps', rest) \<Longrightarrow>
   list_all player_ok ps'"
proof (induction ps arbitrary: s ins ok s' ps' rest)
  case Nil
  then show ?case by simp
next
  case (Cons p ps)
  from Cons.prems(1) have okp: "player_ok p" and okps: "list_all player_ok ps" by simp_all
  show ?case
  proof (cases "is_active p")
    case True
    with Cons.prems(2) obtain ok1 s1 p1 ins1
      where t: "do_player_turn_from s p 0 ins = Inr (ok1, s1, p1, ins1)"
        and r: "(if \<not> ok1 then Inr (False, s1, p1 # ps, ins1)
                 else (case do_player_turns_loop s1 ps ins1 of
                         Inl e \<Rightarrow> Inl e
                       | Inr (ok', s2, ps2, ins2) \<Rightarrow> Inr (ok', s2, p1 # ps2, ins2)))
               = Inr (ok, s', ps', rest)"
      by (auto simp: do_player_turn_def split: sum.splits)
    from okp t have ok1: "player_ok p1" by (rule do_player_turn_from_ok)
    show ?thesis
    proof (cases ok1)
      case False
      with r have "ps' = p1 # ps" by simp
      with ok1 okps show ?thesis by simp
    next
      case True
      with r obtain ps2 where l: "do_player_turns_loop s1 ps ins1 = Inr (ok, s', ps2, rest)"
        and ps': "ps' = p1 # ps2"
        by (auto split: sum.splits)
      from okps l have "list_all player_ok ps2" by (rule Cons.IH)
      with ok1 ps' show ?thesis by simp
    qed
  next
    case False
    with Cons.prems(2) obtain ps2 where l: "do_player_turns_loop s ps ins = Inr (ok, s', ps2, rest)"
      and ps': "ps' = p # ps2"
      by (auto split: sum.splits)
    from okps l have "list_all player_ok ps2" by (rule Cons.IH)
    with okp ps' show ?thesis by simp
  qed
qed

lemma do_player_turns_ok:
  "game_ok g \<Longrightarrow> do_player_turns g ins = Inr (ok, g', rest) \<Longrightarrow> game_ok g'"
  by (auto simp: game_ok_def do_player_turns_def split: sum.splits
      dest: do_player_turns_loop_ok)

lemma take_bet_ok:
  "player_ok p \<Longrightarrow> take_bet int_of p ins = Some (ok, p', rest) \<Longrightarrow> player_ok p'"
proof (induction ins)
  case Nil
  then show ?case by simp
next
  case (Cons b ins)
  show ?case
  proof (cases "b = ''q''")
    case True
    with Cons.prems show ?thesis by simp
  next
    case nq: False
    show ?thesis
    proof (cases "\<exists>n. int_of b = Some n \<and> 0 \<le> n \<and> of_int n \<le> money p")
      case True
      then obtain n where n: "int_of b = Some n" "0 \<le> n" "of_int n \<le> money p" by blast
      with nq have "take_bet int_of p (b # ins) = Some (True, add_hand p (Hand n), ins)"
        by (rule take_bet_valid)
      with Cons.prems(2) have "p' = add_hand p (Hand n)" by simp
      moreover have "player_ok (add_hand p (Hand n))"
        using Cons.prems(1) n(2,3) by (intro add_hand_ok) (simp_all add: Hand_def)
      ultimately show ?thesis by simp
    next
      case False
      with nq have "take_bet int_of p (b # ins) = take_bet int_of p ins"
        by (rule take_bet_invalid)
      with Cons show ?thesis by simp
    qed
  qed
qed

lemma take_bets_loop_ok:
  "list_all player_ok ps \<Longrightarrow> take_bets_loop int_of ps ins = Some (ok, ps', rest) \<Longrightarrow>
   list_all player_ok ps'"
proof (induction ps arbitrary: ins ok ps' rest)
  case Nil
  then show ?case by simp
next
  case (Cons p ps)
  from Cons.prems(1) have okp: "player_ok p" and okps: "list_all player_ok ps" by simp_all
  from Cons.prems(2) obtain ok1 p1 rest1
    where t: "take_bet int_of p ins = Some (ok1, p1, rest1)"
      and r: "(if \<not> ok1 then Some (False, p1 # ps, rest1)
               else (case take_bets_loop int_of ps rest1 of
                       None \<Rightarrow> None
                     | Some (ok', ps2, rest2) \<Rightarrow> Some (ok', p1 # ps2, rest2)))
             = Some (ok, ps', rest)"
    by (auto split: option.splits)
  from okp t have ok1: "player_ok p1" by (rule take_bet_ok)
  show ?case
  proof (cases ok1)
    case False
    with r have "ps' = p1 # ps" by simp
    with ok1 okps show ?thesis by simp
  next
    case True
    with r obtain ps2 where l: "take_bets_loop int_of ps rest1 = Some (ok, ps2, rest)"
      and ps': "ps' = p1 # ps2"
      by (auto split: option.splits)
    from okps l have "list_all player_ok ps2" by (rule Cons.IH)
    with ok1 ps' show ?thesis by simp
  qed
qed

lemma take_bets_ok:
  "game_ok g \<Longrightarrow> take_bets int_of g ins = Some (ok, g', rest) \<Longrightarrow> game_ok g'"
  by (auto simp: game_ok_def take_bets_def split: option.splits dest: take_bets_loop_ok)

lemma is_active_has_hand: "is_active p \<Longrightarrow> 0 < length (hands p)"
  by (cases "hands p") (auto simp: is_active_def split: if_splits)

lemma check_blackjack_player_ok:
  assumes "player_ok p"
  shows "player_ok (fst (check_blackjack_player db p))"
proof (cases "is_active p")
  case False
  with assms show ?thesis by (simp add: check_blackjack_player_def)
next
  case True
  then have "0 < length (hands p)" by (rule is_active_has_hand)
  with assms have b: "0 \<le> bet (hands p ! 0)"
    by (simp add: player_ok_def list_all_length)
  have "player_ok (p\<lparr>blackjack := True\<rparr>)" using assms by (simp add: player_ok_def)
  then have "player_ok (push_hand (p\<lparr>blackjack := True\<rparr>) (hands p ! 0))"
    and "player_ok (win_hand (p\<lparr>blackjack := True\<rparr>) (hands p ! 0))"
    using b by (simp_all add: push_hand_ok win_hand_ok)
  with assms show ?thesis
    by (simp add: check_blackjack_player_def Let_def)
qed

lemma check_blackjack_players:
  "players (snd (check_blackjack g)) =
     map (\<lambda>p. fst (check_blackjack_player (hand_value (dealer_hand (dealer g)) = 21) p)) (players g)"
  by (simp add: check_blackjack_def Let_def)

lemma check_blackjack_ok: "game_ok g \<Longrightarrow> game_ok (snd (check_blackjack g))"
  by (simp add: game_ok_def check_blackjack_players list_all_iff check_blackjack_player_ok)

lemma deal_players_ok:
  "list_all player_ok ps \<Longrightarrow> deal_players s ps = Inr (s', ps') \<Longrightarrow> list_all player_ok ps'"
proof (induction ps arbitrary: s s' ps')
  case Nil
  then show ?case by simp
next
  case (Cons p ps)
  from Cons.prems(1) have okp: "player_ok p" and okps: "list_all player_ok ps" by simp_all
  from Cons.prems(2) obtain hand hs s1 hand1 ps2
    where hp: "hands p = hand # hs"
      and h: "hit_twice s hand = Inr (s1, hand1)"
      and l: "deal_players s1 ps = Inr (s', ps2)"
      and ps': "ps' = p\<lparr>hands := hand1 # hs\<rparr> # ps2"
    by (auto split: list.splits sum.splits)
  from h have "bet hand1 = bet hand" by (rule hit_twice_bet)
  with okp hp have "player_ok (p\<lparr>hands := hand1 # hs\<rparr>)" by (simp add: player_ok_def)
  moreover from okps l have "list_all player_ok ps2" by (rule Cons.IH)
  ultimately show ?case by (simp add: ps')
qed

lemma deal_ok: "game_ok g \<Longrightarrow> deal g = Inr (ok, g') \<Longrightarrow> game_ok g'"
proof -
  assume g: "game_ok g" and d: "deal g = Inr (ok, g')"
  from d obtain s hand s1 ps where dp: "deal_players s (players g) = Inr (s1, ps)"
    and r: "check_blackjack (g\<lparr>shoe := s1, players := ps,
               dealer := (dealer g)\<lparr>dealer_hand := hand\<rparr>\<rparr>) = (ok, g')"
    by (auto simp: deal_def split: sum.splits)
  from g dp have "list_all player_ok ps" unfolding game_ok_def by (rule deal_players_ok)
  then have "game_ok (g\<lparr>shoe := s1, players := ps, dealer := (dealer g)\<lparr>dealer_hand := hand\<rparr>\<rparr>)"
    by (simp add: game_ok_def)
  then have "game_ok (snd (check_blackjack (g\<lparr>shoe := s1, players := ps,
               dealer := (dealer g)\<lparr>dealer_hand := hand\<rparr>\<rparr>)))"
    by (rule check_blackjack_ok)
  with r show ?thesis by simp
qed

lemma do_dealer_turn_ok: "game_ok g \<Longrightarrow> do_dealer_turn g = Inr g' \<Longrightarrow> game_ok g'"
  by (auto simp: game_ok_def do_dealer_turn_def split: sum.splits)

lemma credit_nonneg: "0 \<le> bet hand \<Longrightarrow> 0 \<le> credit db dt hand"
  by (simp add: credit_def)

lemma do_results_player_ok:
  assumes "player_ok p"
  shows "player_ok (fst (do_results_player d p))"
proof (cases "is_active p")
  case False
  with assms show ?thesis by (simp add: do_results_player_inactive)
next
  case True
  have "0 \<le> sum_list (map (credit (dealer_bust d) (hand_value (dealer_hand d))) (hands p))"
    using assms
    by (intro sum_list_nonneg) (auto simp: player_ok_def list_all_iff credit_nonneg)
  with assms show ?thesis
    by (simp add: do_results_player_active [OF True] player_ok_def)
qed

lemma do_results_ok: "game_ok g \<Longrightarrow> game_ok (fst (do_results g))"
  by (simp add: game_ok_def do_results_def Let_def list_all_iff do_results_player_ok)

lemma reset_ok: "game_ok g \<Longrightarrow> game_ok (reset r g)"
  by (simp add: game_ok_def reset_def list_all_iff player_reset_ok)

lemma Game_ok: "game_ok (Game n)"
  by (simp add: game_ok_def Game_def list_all_iff Player_ok)

lemma reachable_ok: "reachable g \<Longrightarrow> game_ok g"
proof (induction rule: reachable.induct)
  case (init n)
  show ?case by (rule Game_ok)
next
  case (after_reset g r)
  then show ?case by (simp add: reset_ok)
next
  case (after_take_bets g int_of ins ok g' rest)
  then show ?case by (blast intro: take_bets_ok)
next
  case (after_deal g ok g')
  then show ?case by (blast intro: deal_ok)
next
  case (after_check_blackjack g ok g')
  from check_blackjack_ok [OF after_check_blackjack.IH] after_check_blackjack.hyps(2)
  show ?case by simp
next
  case (after_do_player_turns g ins ok g' rest)
  then show ?case by (blast intro: do_player_turns_ok)
next
  case (after_do_dealer_turn g g')
  then show ?case by (blast intro: do_dealer_turn_ok)
next
  case (after_do_results g g' out)
  from do_results_ok [OF after_do_results.IH] after_do_results.hyps(2)
  show ?case by simp
qed

lemma reachable_sample_bets: "reachable sample_bets"
proof (cases "take_bets dec_int (reset (\<lambda>i. i div 2) (Game 1)) [''400'']")
  case None
  then show ?thesis by (simp add: sample_bets_def reachable.init)
next
  case (Some r)
  then obtain ok g rest
    where r: "take_bets dec_int (reset (\<lambda>i. i div 2) (Game 1)) [''400''] = Some (ok, g, rest)"
    by (cases r) auto
  have "reachable (reset (\<lambda>i. i div 2) (Game 1))"
    by (intro reachable.after_reset reachable.init)
  then have "reachable g" using r by (rule reachable.after_take_bets)
  with r show ?thesis by (simp add: sample_bets_def)
qed

lemma reachable_sample_dealt: "reachable sample_dealt"
proof (cases "deal sample_bets")
  case (Inl e)
  then show ?thesis by (simp add: sample_dealt_def reachable_sample_bets)
next
  case (Inr r)
  then obtain ok g where r: "deal sample_bets = Inr (ok, g)" by (cases r) auto
  with reachable_sample_bets have "reachable g" by (rule reachable.after_deal)
  with r show ?thesis by (simp add: sample_dealt_def)
qed

lemma reachable_sample_doubled: "reachable sample_doubled"
proof (cases "do_player_turns sample_dealt [''d'']")
  case (Inl e)
  then show ?thesis by (simp add: sample_doubled_def reachable_sample_dealt)
next
  case (Inr r)
  then obtain ok g rest where r: "do_player_turns sample_dealt [''d''] = Inr (ok, g, rest)"
    by (cases r) auto
  with reachable_sample_dealt have "reachable g" by (rule reachable.after_do_player_turns)
  with r show ?thesis by (simp add: sample_doubled_def)
qed

lemma sample_doubled_players:
  "map money (players sample_bets) = [600] \<and>
   map (\<lambda>p. map bet (hands p)) (players sample_doubled) = [[800]] \<and>
   map money (players sample_doubled) = [200]"
  by code_simp

text \<open>
  Claim C10. A player starts with 1000, and in every state the engine can reach, every
  player's money is at least 0; with it, no hand has a negative bet, which is why
  \<^verbatim>\<open>win_hand\<close> and \<^verbatim>\<open>push_hand\<close> only add. Bets are accepted only up to the money,
  and \<^verbatim>\<open>double\<close> and \<^verbatim>\<open>split\<close> are called only when the money covers the bet of the
  hand.
\<close>

theorem money_never_negative:
  "money (Player n) = 1000 \<and>
   (reachable g \<longrightarrow> (\<forall>p \<in> set (players g). 0 \<le> money p \<and> (\<forall>hand \<in> set (hands p). 0 \<le> bet hand)))"
proof (intro conjI impI ballI)
  show "money (Player n) = 1000" by (simp add: Player_def)
next
  fix p assume "reachable g" and p: "p \<in> set (players g)"
  then have "game_ok g" by (simp add: reachable_ok)
  with p have "player_ok p" by (simp add: game_ok_def list_all_iff)
  then show "0 \<le> money p" by (simp add: player_ok_def)
  fix hand assume "hand \<in> set (hands p)"
  with \<open>player_ok p\<close> show "0 \<le> bet hand" by (simp add: player_ok_def list_all_iff)
qed

theorem money_never_negative_witness:
  "reachable sample_doubled \<and>
   map money (players sample_bets) = [600] \<and>
   map (\<lambda>p. map bet (hands p)) (players sample_doubled) = [[800]] \<and>
   map money (players sample_doubled) = [200] \<and>
   list_all (\<lambda>p. 0 \<le> money p) (players sample_doubled)"
proof -
  from money_never_negative [of 1 sample_doubled, THEN conjunct2, THEN mp,
      OF reachable_sample_doubled]
  have "list_all (\<lambda>p. 0 \<le> money p) (players sample_doubled)"
    by (simp add: list_all_iff)
  with reachable_sample_doubled sample_doubled_players show ?thesis by (intro conjI) simp_all
qed

section \<open>The value of a hand\<close>

lemma hand_value_cong:
  "cards h = cards h' \<Longrightarrow> num_aces h = num_aces h' \<Longrightarrow> hand_value h = hand_value h'"
  by (simp add: hand_value_def)

lemma split_pair_value_list:
  "\<forall>r \<in> set [1, 2, 3, 4, 5, 6, 7, 8, 9, 10, 11, 12, 13 :: int].
   \<forall>x \<in> set [1, 2, 3, 4, 5, 6, 7, 8, 9, 10, 11, 12, 13 :: int].
     hand_value (add ((hand_of 0 [Card r, Card r])\<lparr>cards := [Card r], split_ace := True\<rparr>) (Card x))
       = hand_value (hand_of 0 [Card r, Card x])"
  by code_simp

lemma split_pair_value:
  assumes "r \<in> {1..13}" and "x \<in> {1..13}"
  shows "hand_value (add ((hand_of b [Card r, Card r])\<lparr>cards := [Card r], split_ace := True\<rparr>) (Card x))
       = hand_value (hand_of b [Card r, Card x])"
proof -
  have "hand_value (add ((hand_of b [Card r, Card r])\<lparr>cards := [Card r], split_ace := True\<rparr>) (Card x))
      = hand_value (add ((hand_of 0 [Card r, Card r])\<lparr>cards := [Card r], split_ace := True\<rparr>) (Card x))"
    by (rule hand_value_cong) (simp_all add: add_def Let_def hand_of_simps)
  also have "\<dots> = hand_value (hand_of 0 [Card r, Card x])"
    using split_pair_value_list rank_cases [OF assms(1)] rank_cases [OF assms(2)] by blast
  also have "\<dots> = hand_value (hand_of b [Card r, Card x])"
    by (rule hand_value_cong) (simp_all add: hand_of_simps)
  finally show ?thesis .
qed

lemma split_pair_hands:
  assumes "i < length (hands p)" and "hands p ! i = hand_of b [Card r, Card r]"
  shows "\<exists>p1. split p i = Inr p1 \<and>
     hands p1 ! i = (hand_of b [Card r, Card r])\<lparr>cards := [Card r], split_ace := True\<rparr> \<and>
     last (hands p1) = (hand_of b [Card r])\<lparr>split_ace := True\<rparr>"
proof -
  have c: "cards (hands p ! i) = [Card r, Card r]" by (simp add: assms(2) hand_of_simps)
  note sp = split_two_cards [OF assms(1) c]
  have "(add (Hand (bet (hands p ! i))) (Card r)) = hand_of b [Card r]"
    by (simp add: assms(2) hand_of_simps(3) hand_of_def [of b "[Card r]"])
  with sp assms show ?thesis by (simp add: nth_append)
qed

text \<open>
  Claim C1. The value of a hand is the sum of the base values of its cards less 10 for
  each of \<open>k\<close> softened aces, where \<open>k\<close> is at most the hand's count of aces, the
  softening stops when the value is at most 21 or every ace is softened, and an ace is
  softened only when the value before exceeded 21. An ace has base value 11. For a hand
  built from a bet by adding cards, the count of aces is the number of aces among its
  cards. \<^verbatim>\<open>split\<close> moves a card out of a hand without lowering the count, but the
  two hands of a split pair of ranks 1 to 13, once each has received its card, have the
  value of the hand built from the same two cards. Two aces and a 9 are worth 21, four
  aces are worth 14.
\<close>

theorem hand_value_softening:
  "(0 \<le> num_aces h \<longrightarrow>
      (\<exists>k. int k \<le> num_aces h \<and>
           hand_value h = total (cards h) - 10 * int k \<and>
           (hand_value h \<le> 21 \<or> int k = num_aces h) \<and>
           (0 < k \<longrightarrow> 21 < hand_value h + 10))) \<and>
   cards (hand_of b cs) = cs \<and> num_aces (hand_of b cs) = int (aces cs) \<and>
   (\<forall>r \<in> {1..13}. \<forall>x \<in> {1..13}.
      i < length (hands p) \<and> hands p ! i = hand_of b [Card r, Card r] \<longrightarrow>
      (\<exists>p1. split p i = Inr p1 \<and>
         hand_value (add (hands p1 ! i) (Card x)) = hand_value (hand_of b [Card r, Card x]) \<and>
         hand_value (add (last (hands p1)) (Card x)) = hand_value (hand_of b [Card r, Card x]))) \<and>
   card_value (Card 1) = 11 \<and> card_type (Card 1) = ''A'' \<and>
   hand_value (hand_of b [Card 1, Card 1, Card 9]) = 21 \<and>
   hand_value (hand_of b [Card 1, Card 1, Card 1, Card 1]) = 14"
proof (intro conjI impI ballI)
  assume "0 \<le> num_aces h"
  from value_loop_softens [OF this, of "total (cards h)"]
  show "\<exists>k. int k \<le> num_aces h \<and>
           hand_value h = total (cards h) - 10 * int k \<and>
           (hand_value h \<le> 21 \<or> int k = num_aces h) \<and>
           (0 < k \<longrightarrow> 21 < hand_value h + 10)"
    by (simp add: hand_value_def total_def)
next
  show "cards (hand_of b cs) = cs" and "num_aces (hand_of b cs) = int (aces cs)"
    by (simp_all add: hand_of_simps)
next
  fix r x :: int
  assume r: "r \<in> {1..13}" and x: "x \<in> {1..13}"
    and "i < length (hands p) \<and> hands p ! i = hand_of b [Card r, Card r]"
  then have "i < length (hands p)" and "hands p ! i = hand_of b [Card r, Card r]"
    by simp_all
  from split_pair_hands [OF this] obtain p1 where sp: "split p i = Inr p1"
    and h1: "hands p1 ! i = (hand_of b [Card r, Card r])\<lparr>cards := [Card r], split_ace := True\<rparr>"
    and h2: "last (hands p1) = (hand_of b [Card r])\<lparr>split_ace := True\<rparr>"
    by blast
  have v1: "hand_value (add (hands p1 ! i) (Card x)) = hand_value (hand_of b [Card r, Card x])"
    unfolding h1 using r x by (rule split_pair_value)
  have v2: "hand_value (add (last (hands p1)) (Card x)) = hand_value (hand_of b [Card r, Card x])"
    unfolding h2
    by (rule hand_value_cong) (simp_all add: add_def Let_def hand_of_simps aces_def)
  from sp v1 v2
  show "\<exists>p1. split p i = Inr p1 \<and>
         hand_value (add (hands p1 ! i) (Card x)) = hand_value (hand_of b [Card r, Card x]) \<and>
         hand_value (add (last (hands p1)) (Card x)) = hand_value (hand_of b [Card r, Card x])"
    by blast
next
  show "card_value (Card 1) = 11" and "card_type (Card 1) = ''A''"
    by (simp_all add: Card_def)
next
  show "hand_value (hand_of b [Card 1, Card 1, Card 9]) = 21"
    by (simp add: hand_value_def hand_of_simps aces_def Card_def str_def
        value_loop.simps [of 31] value_loop.simps [of 21])
next
  show "hand_value (hand_of b [Card 1, Card 1, Card 1, Card 1]) = 14"
    by (simp add: hand_value_def hand_of_simps aces_def Card_def
        value_loop.simps [of 44] value_loop.simps [of 34] value_loop.simps [of 24]
        value_loop.simps [of 14])
qed

theorem hand_value_softening_witness:
  "0 \<le> num_aces (hand_of 5 [Card 1, Card 10, Card 5]) \<and>
   (\<exists>k. int k \<le> num_aces (hand_of 5 [Card 1, Card 10, Card 5]) \<and>
      hand_value (hand_of 5 [Card 1, Card 10, Card 5]) = 26 - 10 * int k \<and>
      hand_value (hand_of 5 [Card 1, Card 10, Card 5]) \<le> 21 \<and> 0 < k \<and>
      21 < hand_value (hand_of 5 [Card 1, Card 10, Card 5]) + 10)"
proof -
  let ?h = "hand_of 5 [Card 1, Card 10, Card 5]"
  have n: "0 \<le> num_aces ?h" by (simp add: hand_of_simps)
  have t: "total (cards ?h) = 26" by (simp add: hand_of_simps total_def Card_def)
  have v: "hand_value ?h = 16" by code_simp
  from hand_value_softening [of ?h, THEN conjunct1, THEN mp, OF n]
  obtain k where k: "int k \<le> num_aces ?h" "hand_value ?h = total (cards ?h) - 10 * int k"
    by blast
  from k(2) have "0 < k" by (simp add: t v)
  with k n show ?thesis by (intro conjI exI [of _ k]) (simp_all add: t v)
qed

end
